theory Spec2Isabelle
  imports Main
begin

section \<open>Strings and character classes\<close>

text \<open>
  A JavaScript string is modelled as a \<^typ>\<open>string\<close>; one \<^typ>\<open>char\<close> stands for one
  UTF-16 code unit in the range U+0000 .. U+00FF. Columns are list positions.
\<close>

definition TAB :: char where
  "TAB = CHR 0x09"

definition SPACE :: char where
  "SPACE = CHR 0x20"

definition isWhiteSpace :: "char \<Rightarrow> bool" where
  \<comment> \<open>\<open>\s\<close> and the characters removed by \<open>trim\<close>, \<open>trimStart\<close>: TAB, LF, VT, FF, CR, SP, NBSP\<close>
  "isWhiteSpace c = (of_char c \<in> {9::nat, 10, 11, 12, 13, 32, 160})"

definition isAlpha :: "char \<Rightarrow> bool" where
  \<comment> \<open>\<open>[A-Za-z]\<close>\<close>
  "isAlpha c = (let n = (of_char c :: nat) in (65 \<le> n \<and> n \<le> 90) \<or> (97 \<le> n \<and> n \<le> 122))"

definition isDigit :: "char \<Rightarrow> bool" where
  \<comment> \<open>\<open>[0-9]\<close>\<close>
  "isDigit c = (let n = (of_char c :: nat) in 48 \<le> n \<and> n \<le> 57)"

definition isWordChar :: "char \<Rightarrow> bool" where
  \<comment> \<open>\<open>\w\<close>, that is \<open>[A-Za-z0-9_]\<close>\<close>
  "isWordChar c = (isAlpha c \<or> isDigit c \<or> c = CHR ''_'')"

section \<open>Indentation level\<close>

text \<open>
  \<^verbatim>\<open>countIndentLevel(indent)\<close>: the loop over the characters of the indent keeps two
  counters, \<open>level\<close> and \<open>spaces\<close>.
\<close>

fun countIndentLevel_loop :: "nat \<Rightarrow> nat \<Rightarrow> string \<Rightarrow> nat" where
  "countIndentLevel_loop level spaces [] = level"
| "countIndentLevel_loop level spaces (c # cs) =
     (if c = TAB then countIndentLevel_loop (level + 1) spaces cs
      else if c = SPACE then
        (if spaces + 1 = 2 then countIndentLevel_loop (level + 1) 0 cs
         else countIndentLevel_loop level (spaces + 1) cs)
      else countIndentLevel_loop level spaces cs)"

definition countIndentLevel :: "string \<Rightarrow> nat" where
  "countIndentLevel indent = countIndentLevel_loop 0 0 indent"

section \<open>String operations of the host language\<close>

definition trimStart :: "string \<Rightarrow> string" where
  "trimStart s = dropWhile isWhiteSpace s"

definition trimEnd :: "string \<Rightarrow> string" where
  "trimEnd s = rev (dropWhile isWhiteSpace (rev s))"

definition trim :: "string \<Rightarrow> string" where
  "trim s = trimEnd (trimStart s)"

definition startsWith :: "string \<Rightarrow> string \<Rightarrow> bool" where
  "startsWith s p = (take (length p) s = p)"

section \<open>Boundary between the list region and the markup region\<close>

text \<open>The test \<^verbatim>\<open>/<\/?[a-zA-Z]/.test(trimmed)\<close>: the pattern may match at any position.\<close>

fun tagOpenMatch :: "string \<Rightarrow> bool" where
  "tagOpenMatch [] = False"
| "tagOpenMatch (c # cs) =
     ((c = CHR ''<'' \<and>
        (case cs of
           [] \<Rightarrow> False
         | d # ds \<Rightarrow> isAlpha d \<or> (d = CHR ''/'' \<and> (case ds of [] \<Rightarrow> False | e # _ \<Rightarrow> isAlpha e))))
      \<or> tagOpenMatch cs)"

definition looksLikeHtmlStart :: "string \<Rightarrow> bool" where
  "looksLikeHtmlStart line =
     (let trimmed = trimStart line in
      if \<not> startsWith trimmed ''<'' then False
      else if startsWith trimmed ''<<<<<'' then False
      else tagOpenMatch trimmed)"

text \<open>
  \<^verbatim>\<open>findHtmlStart(lines)\<close>: the loop runs over the lines left to visit; \<open>n\<close> is
  \<^verbatim>\<open>lines.length\<close>, returned when the loop ends.
\<close>

fun findHtmlStart_loop :: "nat \<Rightarrow> bool \<Rightarrow> nat \<Rightarrow> string list \<Rightarrow> nat" where
  "findHtmlStart_loop n sawBlank index [] = n"
| "findHtmlStart_loop n sawBlank index (line # rest) =
     (if trim line = [] then findHtmlStart_loop n True (index + 1) rest
      else if sawBlank \<and> looksLikeHtmlStart line then index
      else findHtmlStart_loop n False (index + 1) rest)"

definition findHtmlStart :: "string list \<Rightarrow> nat" where
  "findHtmlStart lines = findHtmlStart_loop (length lines) False 0 lines"

text \<open>
  The boundary condition in the words of the specification: line \<open>i\<close> directly follows a
  blank line, its left-trimmed text starts with between one and four \<open><\<close> characters, and it
  contains \<open><\<close> or \<open></\<close> followed by a letter.
\<close>

definition containsTagOpen :: "string \<Rightarrow> bool" where
  "containsTagOpen s =
     (\<exists>pre c post. isAlpha c \<and> (s = pre @ ''<'' @ c # post \<or> s = pre @ ''</'' @ c # post))"

definition markupStartsAt :: "string list \<Rightarrow> nat \<Rightarrow> bool" where
  "markupStartsAt lines i =
     (0 < i \<and> i < length lines
      \<and> (\<forall>c \<in> set (lines ! (i - 1)). isWhiteSpace c)
      \<and> (let run = length (takeWhile (\<lambda>c. c = CHR ''<'') (dropWhile isWhiteSpace (lines ! i)))
         in 1 \<le> run \<and> run < 5)
      \<and> containsTagOpen (lines ! i))"

definition identStart :: "char \<Rightarrow> bool" where
  \<comment> \<open>\<open>[A-Za-z_]\<close>\<close>
  "identStart c = (isAlpha c \<or> c = CHR ''_'')"

definition identPart :: "char \<Rightarrow> bool" where
  \<comment> \<open>\<open>[A-Za-z0-9_-]\<close>\<close>
  "identPart c = (isAlpha c \<or> isDigit c \<or> c = CHR ''_'' \<or> c = CHR ''-'')"

text \<open>
  \<^verbatim>\<open>text.indexOf(needle)\<close>: the position of the first occurrence, \<open>None\<close> for \<open>-1\<close>.
\<close>

fun indexOf_from :: "nat \<Rightarrow> string \<Rightarrow> string \<Rightarrow> nat option" where
  "indexOf_from pos [] needle = (if needle = [] then Some pos else None)"
| "indexOf_from pos (c # cs) needle =
     (if startsWith (c # cs) needle then Some pos else indexOf_from (pos + 1) cs needle)"

definition indexOf :: "string \<Rightarrow> string \<Rightarrow> nat option" where
  "indexOf text needle = indexOf_from 0 text needle"

definition includesStr :: "string \<Rightarrow> string \<Rightarrow> bool" where
  "includesStr text needle = (indexOf text needle \<noteq> None)"

section \<open>Regular expression search\<close>

text \<open>
  A pattern without look-behind is given by its anchored matcher \<open>m\<close>: \<open>m s\<close> is the result of
  matching the pattern at the start of \<open>s\<close>. \<open>regexSearch\<close> tries the positions from left to
  right, as the regular expression engine does; \<open>regexExec\<close> is \<^verbatim>\<open>RegExp.prototype.exec\<close> of a
  global pattern whose \<^verbatim>\<open>lastIndex\<close> is passed explicitly, returning the match index with the
  matcher's result.
\<close>

fun regexSearch :: "(string \<Rightarrow> 'a option) \<Rightarrow> nat \<Rightarrow> string \<Rightarrow> (nat \<times> 'a) option" where
  "regexSearch m pos [] = (case m [] of Some r \<Rightarrow> Some (pos, r) | None \<Rightarrow> None)"
| "regexSearch m pos (c # cs) =
     (case m (c # cs) of Some r \<Rightarrow> Some (pos, r) | None \<Rightarrow> regexSearch m (pos + 1) cs)"

definition regexExec :: "(string \<Rightarrow> 'a option) \<Rightarrow> string \<Rightarrow> nat \<Rightarrow> (nat \<times> 'a) option" where
  "regexExec m text lastIndex =
     (if length text < lastIndex then None else regexSearch m lastIndex (drop lastIndex text))"

text \<open>A match is never reported before \<^verbatim>\<open>lastIndex\<close>; this makes the scanning loops terminate.\<close>

lemma regexSearch_bounds: "regexSearch m pos s = Some (index, r) \<Longrightarrow> pos \<le> index"
proof (induction s arbitrary: pos)
  case Nil
  then show ?case by (simp split: option.splits)
next
  case (Cons c cs)
  show ?case
  proof (cases "m (c # cs)")
    case None
    with Cons.prems have "regexSearch m (pos + 1) cs = Some (index, r)" by simp
    then have "pos + 1 \<le> index" by (rule Cons.IH)
    then show ?thesis by simp
  next
    case (Some a)
    with Cons.prems show ?thesis by simp
  qed
qed

lemma regexExec_bounds:
  "regexExec m str lastIndex = Some (index, r) \<Longrightarrow> lastIndex \<le> index \<and> lastIndex \<le> length str"
  unfolding regexExec_def by (auto split: if_splits dest: regexSearch_bounds)

section \<open>List references\<close>

text \<open>
  \<^verbatim>\<open>LIST_REF_REGEX = /\[\[([A-Za-z_][A-Za-z0-9_-]*)\]\]/g\<close> in the full extension, and
  \<^verbatim>\<open>/\[\[([A-Za-z_][A-Za-z0-9_]*)\]\]/g\<close> in the reduced \<^verbatim>\<open>src/extension.js\<close>. The anchored
  matcher takes the class of the identifier's later characters as \<open>part\<close> and returns capture
  group 1. The identifier run is followed by \<open>]]\<close>, which is outside both classes, so the
  longest run is the only one that can match.
\<close>

fun LIST_REF_REGEX_with :: "(char \<Rightarrow> bool) \<Rightarrow> string \<Rightarrow> string option" where
  "LIST_REF_REGEX_with part (a # b # c # rest) =
     (if a = CHR ''['' \<and> b = CHR ''['' \<and> identStart c \<and> startsWith (dropWhile part rest) '']]''
      then Some (c # takeWhile part rest) else None)"
| "LIST_REF_REGEX_with part s = None"

definition LIST_REF_REGEX :: "string \<Rightarrow> string option" where
  "LIST_REF_REGEX = LIST_REF_REGEX_with identPart"

definition LIST_REF_REGEX_reduced :: "string \<Rightarrow> string option" where
  "LIST_REF_REGEX_reduced = LIST_REF_REGEX_with isWordChar"

record reference =
  ref_name :: string
  ref_line :: nat
  ref_start :: nat
  ref_end :: nat

text \<open>
  The inner \<^verbatim>\<open>while ((match = LIST_REF_REGEX.exec(text)))\<close> loop of
  \<^verbatim>\<open>collectListReferences\<close>; \<^verbatim>\<open>match[0].length\<close> is the name's length plus the four brackets.
\<close>

function collectLineReferences ::
  "(char \<Rightarrow> bool) \<Rightarrow> nat \<Rightarrow> string \<Rightarrow> nat \<Rightarrow> reference list" where
  "collectLineReferences part lineIndex text lastIndex =
     (case regexExec (LIST_REF_REGEX_with part) text lastIndex of
        None \<Rightarrow> []
      | Some (index, name) \<Rightarrow>
          \<lparr>ref_name = name, ref_line = lineIndex, ref_start = index,
           ref_end = index + (length name + 4)\<rparr>
          # collectLineReferences part lineIndex text (index + (length name + 4)))"
  by pat_completeness auto
termination
proof (relation "measure (\<lambda>(part, lineIndex, text, lastIndex). length text + 1 - lastIndex)")
  show "wf (measure (\<lambda>(part, lineIndex, text, lastIndex). length text + 1 - lastIndex))"
    by simp
next
  fix part :: "char \<Rightarrow> bool" and lineIndex :: nat and str :: string and lastIndex :: nat
    and x2 :: "nat \<times> string" and index :: nat and name :: string
  assume "regexExec (LIST_REF_REGEX_with part) str lastIndex = Some x2" and "(index, name) = x2"
  then have "lastIndex \<le> index \<and> lastIndex \<le> length str"
    using regexExec_bounds[of "LIST_REF_REGEX_with part" str lastIndex index name] by simp
  then show "((part, lineIndex, str, index + (length name + 4)), (part, lineIndex, str, lastIndex))
        \<in> measure (\<lambda>(part, lineIndex, text, lastIndex). length text + 1 - lastIndex)"
    by (simp, arith)
qed

declare collectLineReferences.simps [simp del]

fun collectListReferences_loop :: "(char \<Rightarrow> bool) \<Rightarrow> nat \<Rightarrow> string list \<Rightarrow> reference list" where
  "collectListReferences_loop part lineIndex [] = []"
| "collectListReferences_loop part lineIndex (text # rest) =
     collectLineReferences part lineIndex text 0
     @ collectListReferences_loop part (lineIndex + 1) rest"

definition collectListReferences :: "string list \<Rightarrow> reference list" where
  "collectListReferences document = collectListReferences_loop identPart 0 document"

definition collectListReferences_reduced :: "string list \<Rightarrow> reference list" where
  "collectListReferences_reduced document = collectListReferences_loop isWordChar 0 document"

text \<open>
  An occurrence of \<open>[[identifier]]\<close> in a line, in the words of the specification: the
  identifier starts with a letter or underscore and continues with characters of the class
  \<open>part\<close>; the occurrence starts at column \<open>p\<close>.
\<close>

definition isIdentifier :: "(char \<Rightarrow> bool) \<Rightarrow> string \<Rightarrow> bool" where
  "isIdentifier part nm = (case nm of [] \<Rightarrow> False | c # cs \<Rightarrow> identStart c \<and> (\<forall>d \<in> set cs. part d))"

definition referenceOccurs :: "(char \<Rightarrow> bool) \<Rightarrow> string \<Rightarrow> nat \<Rightarrow> string \<Rightarrow> bool" where
  "referenceOccurs part text p nm =
     (isIdentifier part nm \<and> (\<exists>pre post. text = pre @ ''[['' @ nm @ '']]'' @ post \<and> length pre = p))"

section \<open>Single equals sign in a bracketed conditional\<close>

text \<open>
  \<^verbatim>\<open>hasSingleEquals(text)\<close>: \<^verbatim>\<open>text[i - 1] || ""\<close> and \<^verbatim>\<open>text[i + 1] || ""\<close> are \<open>None\<close> when
  the position is outside the string.
\<close>

function hasSingleEquals_from :: "string \<Rightarrow> nat \<Rightarrow> bool" where
  "hasSingleEquals_from text i =
     (if i < length text then
        (if text ! i \<noteq> CHR ''='' then hasSingleEquals_from text (i + 1)
         else
           (let prev = (if i = 0 then None else Some (text ! (i - 1)));
                nxt = (if i + 1 < length text then Some (text ! (i + 1)) else None)
            in if prev = Some CHR ''='' \<or> nxt = Some CHR ''='' then hasSingleEquals_from text (i + 1)
               else if prev = Some CHR ''!'' \<or> prev = Some CHR ''>'' \<or> prev = Some CHR ''<''
                 then hasSingleEquals_from text (i + 1)
               else if nxt = Some CHR ''>'' then hasSingleEquals_from text (i + 1)
               else True))
      else False)"
  by pat_completeness auto
termination
  by (relation "measure (\<lambda>(text, i). length text - i)") auto

declare hasSingleEquals_from.simps [simp del]

definition hasSingleEquals :: "string \<Rightarrow> bool" where
  "hasSingleEquals text = hasSingleEquals_from text 0"

text \<open>
  The pattern \<^verbatim>\<open>/\[([^\]]+)\]/g\<close>, anchored; the result is capture group 1. The run of
  characters other than \<open>]\<close> must be followed by \<open>]\<close>, so only the longest run can match.
\<close>

fun bracketRegex :: "string \<Rightarrow> string option" where
  "bracketRegex [] = None"
| "bracketRegex (c # cs) =
     (if c = CHR ''['' \<and> takeWhile (\<lambda>d. d \<noteq> CHR '']'') cs \<noteq> []
         \<and> dropWhile (\<lambda>d. d \<noteq> CHR '']'') cs \<noteq> []
      then Some (takeWhile (\<lambda>d. d \<noteq> CHR '']'') cs) else None)"

record span =
  span_start :: nat
  span_end :: nat

text \<open>
  \<^verbatim>\<open>findIfElseSingleEquals(text)\<close>: the \<^verbatim>\<open>while ((match = pattern.exec(text)) !== null)\<close> loop;
  \<^verbatim>\<open>match[0].length\<close> is the content's length plus the two brackets.
\<close>

function findIfElseSingleEquals_from :: "string \<Rightarrow> nat \<Rightarrow> span list" where
  "findIfElseSingleEquals_from text lastIndex =
     (case regexExec bracketRegex text lastIndex of
        None \<Rightarrow> []
      | Some (index, content) \<Rightarrow>
          (case (indexOf content ''?'', indexOf content '':'') of
             (Some questionIndex, Some colonIndex) \<Rightarrow>
               if hasSingleEquals (take questionIndex content)
               then [\<lparr>span_start = index, span_end = index + (length content + 2)\<rparr>]
               else []
           | _ \<Rightarrow> [])
          @ findIfElseSingleEquals_from text (index + (length content + 2)))"
  by pat_completeness auto
termination
proof (relation "measure (\<lambda>(text, lastIndex). length text + 1 - lastIndex)")
  show "wf (measure (\<lambda>(text, lastIndex). length text + 1 - lastIndex))"
    by simp
next
  fix str :: string and lastIndex :: nat and x2 :: "nat \<times> string" and index :: nat
    and content :: string
  assume "regexExec bracketRegex str lastIndex = Some x2" and "(index, content) = x2"
  then have "lastIndex \<le> index \<and> lastIndex \<le> length str"
    using regexExec_bounds[of bracketRegex str lastIndex index content] by simp
  then show "((str, index + (length content + 2)), (str, lastIndex))
        \<in> measure (\<lambda>(text, lastIndex). length text + 1 - lastIndex)"
    by (simp, arith)
qed

declare findIfElseSingleEquals_from.simps [simp del]

definition findIfElseSingleEquals :: "string \<Rightarrow> span list" where
  "findIfElseSingleEquals text = findIfElseSingleEquals_from text 0"

text \<open>
  The bracketed spans the scan visits, from left to right: the matches of the pattern alone.
\<close>

function bracketSpans_from :: "string \<Rightarrow> nat \<Rightarrow> (nat \<times> string) list" where
  "bracketSpans_from text lastIndex =
     (case regexExec bracketRegex text lastIndex of
        None \<Rightarrow> []
      | Some (index, content) \<Rightarrow>
          (index, content) # bracketSpans_from text (index + (length content + 2)))"
  by pat_completeness auto
termination
proof (relation "measure (\<lambda>(text, lastIndex). length text + 1 - lastIndex)")
  show "wf (measure (\<lambda>(text, lastIndex). length text + 1 - lastIndex))"
    by simp
next
  fix str :: string and lastIndex :: nat and x2 :: "nat \<times> string" and index :: nat
    and content :: string
  assume "regexExec bracketRegex str lastIndex = Some x2" and "(index, content) = x2"
  then have "lastIndex \<le> index \<and> lastIndex \<le> length str"
    using regexExec_bounds[of bracketRegex str lastIndex index content] by simp
  then show "((str, index + (length content + 2)), (str, lastIndex))
        \<in> measure (\<lambda>(text, lastIndex). length text + 1 - lastIndex)"
    by (simp, arith)
qed

declare bracketSpans_from.simps [simp del]

text \<open>
  The rule in the words of the specification. Position \<open>i\<close> of a condition holds a single
  equals sign when the character is \<open>=\<close>, the character before it (if any) is none of
  \<open>=\<close>, \<open>!\<close>, \<open>>\<close>, \<open><\<close>, and the character after it (if any) is neither \<open>=\<close> nor \<open>>\<close>. A span's
  content is flagged when it contains \<open>?\<close> and \<open>:\<close> and the part before the first \<open>?\<close> holds a
  single equals sign.
\<close>

definition singleEqualsAt :: "string \<Rightarrow> nat \<Rightarrow> bool" where
  "singleEqualsAt cond i =
     (i < length cond \<and> cond ! i = CHR ''=''
      \<and> (i = 0 \<or> cond ! (i - 1) \<notin> {CHR ''='', CHR ''!'', CHR ''>'', CHR ''<''})
      \<and> (i + 1 = length cond \<or> cond ! (i + 1) \<notin> {CHR ''='', CHR ''>''}))"

definition ternaryWithSingleEquals :: "string \<Rightarrow> bool" where
  "ternaryWithSingleEquals content =
     (CHR ''?'' \<in> set content \<and> CHR '':'' \<in> set content
      \<and> (\<exists>i. singleEqualsAt (takeWhile (\<lambda>c. c \<noteq> CHR ''?'') content) i))"

definition bracketSpanAt :: "string \<Rightarrow> nat \<Rightarrow> string \<Rightarrow> bool" where
  "bracketSpanAt text p content =
     (content \<noteq> [] \<and> CHR '']'' \<notin> set content
      \<and> (\<exists>pre post. text = pre @ ''['' @ content @ '']'' @ post \<and> length pre = p))"

section \<open>Line classification\<close>

definition stripComment :: "string \<Rightarrow> string" where
  "stripComment text =
     (case indexOf text ''//'' of None \<Rightarrow> text | Some index \<Rightarrow> take index text)"

text \<open>
  \<^verbatim>\<open>line.match(/^[\t ]+/)\<close>, with \<^verbatim>\<open>indent = indentMatch ? indentMatch[0] : ""\<close>: the leading
  run of tabs and spaces, empty when the line starts with another character.
\<close>

definition leadingIndent :: "string \<Rightarrow> string" where
  "leadingIndent line = takeWhile (\<lambda>c. c = TAB \<or> c = SPACE) line"

text \<open>
  \<^verbatim>\<open>parseListName(trimmedLine)\<close>; the pattern is \<^verbatim>\<open>/^[A-Za-z0-9_$][\w$-]*/\<close>, and
  \<^verbatim>\<open>"async ".length\<close> is 6. \<open>None\<close> stands for \<^verbatim>\<open>null\<close>.
\<close>

definition parseListName :: "string \<Rightarrow> string option" where
  "parseListName trimmedLine =
     (let line = (if startsWith trimmedLine ''async '' then trimStart (drop 6 trimmedLine)
                  else trimmedLine)
      in case line of
           [] \<Rightarrow> None
         | c # cs \<Rightarrow>
             if isWordChar c \<or> c = CHR ''$''
             then Some (c # takeWhile (\<lambda>d. isWordChar d \<or> d = CHR ''$'' \<or> d = CHR ''-'') cs)
             else None)"

text \<open>
  The header patterns. In each, the identifier run is followed by something outside the
  identifier class (the end of the line, white space, \<open>=\<close> or \<open>(\<close>), so the longest run is the only
  one that can match. \<open>part\<close> is the class of the identifier's later characters:
  \<^verbatim>\<open>[A-Za-z0-9_-]\<close> in the full extension and the batch script, \<^verbatim>\<open>[A-Za-z0-9_]\<close> in the reduced
  \<^verbatim>\<open>src/extension.js\<close>. The results are capture group 1.

  \<^verbatim>\<open>LIST_BLOCK_HEADER_REGEX = /^([A-Za-z_][A-Za-z0-9_-]*|\$[A-Za-z_][A-Za-z0-9_-]*)$/\<close>
\<close>

definition LIST_BLOCK_HEADER_REGEX_with :: "(char \<Rightarrow> bool) \<Rightarrow> string \<Rightarrow> string option" where
  "LIST_BLOCK_HEADER_REGEX_with part s =
     (if isIdentifier part s \<or> (case s of [] \<Rightarrow> False | c # cs \<Rightarrow> c = CHR ''$'' \<and> isIdentifier part cs)
      then Some s else None)"

text \<open>\<^verbatim>\<open>LIST_SHORTHAND_REGEX = /^([A-Za-z_][A-Za-z0-9_-]*)\s*=/\<close>\<close>

definition LIST_SHORTHAND_REGEX_with :: "(char \<Rightarrow> bool) \<Rightarrow> string \<Rightarrow> string option" where
  "LIST_SHORTHAND_REGEX_with part s =
     (case s of
        [] \<Rightarrow> None
      | c # cs \<Rightarrow>
          if identStart c \<and> startsWith (dropWhile isWhiteSpace (dropWhile part cs)) ''=''
          then Some (c # takeWhile part cs) else None)"

text \<open>\<^verbatim>\<open>DOLLAR_SHORTHAND_REGEX = /^\$([A-Za-z_][A-Za-z0-9_-]*)\s*=/\<close>\<close>

definition DOLLAR_SHORTHAND_REGEX_with :: "(char \<Rightarrow> bool) \<Rightarrow> string \<Rightarrow> string option" where
  "DOLLAR_SHORTHAND_REGEX_with part s =
     (case s of
        [] \<Rightarrow> None
      | c # cs \<Rightarrow> if c = CHR ''$'' then LIST_SHORTHAND_REGEX_with part cs else None)"

definition LIST_BLOCK_HEADER_REGEX :: "string \<Rightarrow> string option" where
  "LIST_BLOCK_HEADER_REGEX = LIST_BLOCK_HEADER_REGEX_with identPart"

definition LIST_SHORTHAND_REGEX :: "string \<Rightarrow> string option" where
  "LIST_SHORTHAND_REGEX = LIST_SHORTHAND_REGEX_with identPart"

definition DOLLAR_SHORTHAND_REGEX :: "string \<Rightarrow> string option" where
  "DOLLAR_SHORTHAND_REGEX = DOLLAR_SHORTHAND_REGEX_with identPart"

text \<open>
  \<^verbatim>\<open>FUNCTION_HEADER_REGEX = /^(async\s+)?[A-Za-z_][A-Za-z0-9_$-]*\s*\([^)]*\)\s*=>\s*$/\<close>.
  \<open>functionHeaderTail\<close> is the pattern after the optional group; every repetition in it is
  followed by a character outside its class, so it is matched deterministically. The optional
  group is tried first and, failing that, skipped: the test is the disjunction of the two.
\<close>

definition functionHeaderTail :: "string \<Rightarrow> bool" where
  "functionHeaderTail s =
     (case s of
        [] \<Rightarrow> False
      | c # cs \<Rightarrow>
          identStart c \<and>
          (case dropWhile isWhiteSpace (dropWhile (\<lambda>d. identPart d \<or> d = CHR ''$'') cs) of
             [] \<Rightarrow> False
           | p # ps \<Rightarrow>
               p = CHR ''('' \<and>
               (case dropWhile (\<lambda>d. d \<noteq> CHR '')'') ps of
                  [] \<Rightarrow> False
                | q # qs \<Rightarrow>
                    (case dropWhile isWhiteSpace qs of
                       e # g # r \<Rightarrow> e = CHR ''='' \<and> g = CHR ''>'' \<and> (\<forall>x \<in> set r. isWhiteSpace x)
                     | _ \<Rightarrow> False))))"

definition FUNCTION_HEADER_REGEX :: "string \<Rightarrow> bool" where
  "FUNCTION_HEADER_REGEX s =
     ((startsWith s ''async'' \<and>
        (case drop 5 s of
           [] \<Rightarrow> False
         | w # ws \<Rightarrow> isWhiteSpace w \<and> functionHeaderTail (dropWhile isWhiteSpace ws)))
      \<or> functionHeaderTail s)"

text \<open>\<^verbatim>\<open>isListHeaderLine(trimmedLine)\<close> of the batch script.\<close>

definition isListHeaderLine :: "string \<Rightarrow> bool" where
  "isListHeaderLine trimmedLine =
     (if trimmedLine = [] then False
      else if LIST_BLOCK_HEADER_REGEX trimmedLine \<noteq> None then True
      else if LIST_SHORTHAND_REGEX trimmedLine \<noteq> None then True
      else if DOLLAR_SHORTHAND_REGEX trimmedLine \<noteq> None then True
      else FUNCTION_HEADER_REGEX trimmedLine)"

text \<open>
  \<^verbatim>\<open>isFunctionListStart(trimmedLine)\<close> tests \<^verbatim>\<open>/\b=>\s*$/\<close>. The scan tries every position;
  \<open>prev\<close> is the character before the position. \<^verbatim>\<open>\b\<close> holds where exactly one of the two
  neighbouring characters is a word character.
\<close>

definition wordBoundary :: "char option \<Rightarrow> char option \<Rightarrow> bool" where
  "wordBoundary prev cur =
     ((case prev of None \<Rightarrow> False | Some c \<Rightarrow> isWordChar c)
      \<noteq> (case cur of None \<Rightarrow> False | Some c \<Rightarrow> isWordChar c))"

fun arrowAtEnd_scan :: "char option \<Rightarrow> string \<Rightarrow> bool" where
  "arrowAtEnd_scan prev [] = False"
| "arrowAtEnd_scan prev (c # cs) =
     ((wordBoundary prev (Some c) \<and> startsWith (c # cs) ''=>''
        \<and> (\<forall>x \<in> set (drop 1 cs). isWhiteSpace x))
      \<or> arrowAtEnd_scan (Some c) cs)"

definition isFunctionListStart :: "string \<Rightarrow> bool" where
  "isFunctionListStart trimmedLine =
     (if trimmedLine = [] then False else arrowAtEnd_scan None trimmedLine)"

section \<open>The batch analyzer\<close>

text \<open>\<^verbatim>\<open>content.split(/\r?\n/)\<close>\<close>

function splitLines :: "string \<Rightarrow> string list" where
  "splitLines content =
     (case content of
        [] \<Rightarrow> [[]]
      | c # cs \<Rightarrow>
          if c = CHR 0x0A then [] # splitLines cs
          else if c = CHR 0x0D \<and> startsWith cs [CHR 0x0A] then [] # splitLines (drop 1 cs)
          else (case splitLines cs of [] \<Rightarrow> [[c]] | l # ls \<Rightarrow> (c # l) # ls))"
  by pat_completeness auto
termination
  by (relation "measure length") auto

declare splitLines.simps [simp del]

record warning =
  w_line :: nat
  w_code :: string
  w_message :: string

text \<open>The state of the first loop of \<^verbatim>\<open>analyzePerchance\<close>.\<close>

record batchState =
  b_warnings :: "warning list"
  b_listNameIndex :: "string \<rightharpoonup> nat"

definition pushWarning :: "warning \<Rightarrow> batchState \<Rightarrow> batchState" where
  "pushWarning w st = st\<lparr>b_warnings := b_warnings st @ [w]\<rparr>"

text \<open>One iteration of the loop \<^verbatim>\<open>for (index = 0; index < htmlStart; index += 1)\<close>.\<close>

definition analyzePerchance_line :: "nat \<Rightarrow> string \<Rightarrow> batchState \<Rightarrow> batchState" where
  "analyzePerchance_line index line st =
     (let trimmed = trim line in
      if trimmed = [] \<or> startsWith trimmed ''//'' then st
      else
        let indent = leadingIndent line;
            contentText = drop (length indent) line;
            commentFree = stripComment contentText;
            st1 =
              (if indent = [] then
                 (case parseListName trimmed of
                    None \<Rightarrow> st
                  | Some listName \<Rightarrow>
                      if startsWith listName ''$'' then st
                      else if b_listNameIndex st listName \<noteq> None then
                        pushWarning
                          \<lparr>w_line = index + 1, w_code = ''duplicate-list'',
                           w_message = ''Duplicate top-level list name: '' @ listName\<rparr> st
                      else st\<lparr>b_listNameIndex := (b_listNameIndex st)(listName \<mapsto> index)\<rparr>)
               else
                 (let st2 =
                        (if includesStr indent [TAB] \<and> includesStr indent [SPACE] then
                           pushWarning
                             \<lparr>w_line = index + 1, w_code = ''mixed-indent'',
                              w_message = ''Mixed tabs and spaces in indentation''\<rparr> st
                         else st);
                      spaceCount = length (filter (\<lambda>c. c \<noteq> TAB) indent)
                  in if spaceCount mod 2 \<noteq> 0 then
                       pushWarning
                         \<lparr>w_line = index + 1, w_code = ''odd-indent'',
                          w_message = ''Indentation should use tabs or multiples of two spaces''\<rparr> st2
                     else st2))
        in st1\<lparr>b_warnings := b_warnings st1 @
               map (\<lambda>warning.
                     \<lparr>w_line = index + 1, w_code = ''single-equals'',
                      w_message = ''If/else conditions should use == instead of =''\<rparr>)
                 (findIfElseSingleEquals commentFree)\<rparr>)"

fun analyzePerchance_loop :: "nat \<Rightarrow> string list \<Rightarrow> batchState \<Rightarrow> batchState" where
  "analyzePerchance_loop index [] st = st"
| "analyzePerchance_loop index (line # rest) st =
     analyzePerchance_loop (index + 1) rest (analyzePerchance_line index line st)"

text \<open>
  The second loop, \<^verbatim>\<open>for (index = htmlStart; index < lines.length; index += 1)\<close>, which stops
  at the first list header.
\<close>

fun listAfterHtml_loop :: "nat \<Rightarrow> string list \<Rightarrow> warning list" where
  "listAfterHtml_loop index [] = []"
| "listAfterHtml_loop index (line # rest) =
     (let trimmed = trim line in
      if trimmed = [] \<or> startsWith trimmed ''<!--'' then listAfterHtml_loop (index + 1) rest
      else if isListHeaderLine trimmed then
        [\<lparr>w_line = index + 1, w_code = ''list-after-html'',
          w_message = ''List header appears after HTML start''\<rparr>]
      else listAfterHtml_loop (index + 1) rest)"

text \<open>
  \<^verbatim>\<open>analyzePerchance\<close> after the split into lines; \<open>analyzePerchance_state\<close> is the state
  the first loop ends in.
\<close>

definition analyzePerchance_state :: "string list \<Rightarrow> batchState" where
  "analyzePerchance_state lines =
     analyzePerchance_loop 0 (take (findHtmlStart lines) lines)
       \<lparr>b_warnings = [], b_listNameIndex = Map.empty\<rparr>"

definition analyzePerchance_lines :: "string list \<Rightarrow> warning list" where
  "analyzePerchance_lines lines =
     b_warnings (analyzePerchance_state lines)
     @ listAfterHtml_loop (findHtmlStart lines) (drop (findHtmlStart lines) lines)"

definition analyzePerchance :: "string \<Rightarrow> warning list" where
  "analyzePerchance content = analyzePerchance_lines (splitLines content)"

section \<open>List definitions\<close>

text \<open>
  A document is the list of its lines; \<^verbatim>\<open>document.lineAt(i).text\<close> is \<open>document ! i\<close>,
  \<^verbatim>\<open>document.getText().split(/\r?\n/)\<close> is the same list, and the position
  \<^verbatim>\<open>line.range.start\<close> stored in the map is represented by the line index.

  One iteration of the loop of \<^verbatim>\<open>collectListDefinitions\<close> in the full extension;
  \<^verbatim>\<open>!/^\s/.test(text)\<close> holds when the line does not start with white space.
\<close>

definition collectListDefinitions_line ::
  "nat \<Rightarrow> string \<Rightarrow> (string \<rightharpoonup> nat) \<Rightarrow> (string \<rightharpoonup> nat)" where
  "collectListDefinitions_line lineIndex text definitions =
     (let trimmed = trim text in
      if trimmed = [] \<or> startsWith trimmed ''//'' \<or> startsWith trimmed ''<'' then definitions
      else if \<not> (case text of [] \<Rightarrow> False | c # cs \<Rightarrow> isWhiteSpace c) then
        (case parseListName trimmed of
           None \<Rightarrow> definitions
         | Some listName \<Rightarrow>
             if \<not> startsWith listName ''$'' then definitions(listName \<mapsto> lineIndex)
             else definitions)
      else
        (case LIST_BLOCK_HEADER_REGEX trimmed of
           Some name \<Rightarrow>
             if \<not> startsWith name ''$'' then definitions(name \<mapsto> lineIndex) else definitions
         | None \<Rightarrow>
             (case LIST_SHORTHAND_REGEX trimmed of
                Some name \<Rightarrow> definitions(name \<mapsto> lineIndex)
              | None \<Rightarrow>
                  (case DOLLAR_SHORTHAND_REGEX trimmed of
                     Some name \<Rightarrow> definitions
                   | None \<Rightarrow> definitions))))"

fun collectListDefinitions_loop ::
  "nat \<Rightarrow> string list \<Rightarrow> (string \<rightharpoonup> nat) \<Rightarrow> (string \<rightharpoonup> nat)" where
  "collectListDefinitions_loop lineIndex [] definitions = definitions"
| "collectListDefinitions_loop lineIndex (text # rest) definitions =
     collectListDefinitions_loop (lineIndex + 1) rest
       (collectListDefinitions_line lineIndex text definitions)"

definition collectListDefinitions :: "string list \<Rightarrow> (string \<rightharpoonup> nat)" where
  "collectListDefinitions document =
     (let lines = document;
          htmlStart = findHtmlStart lines
      in collectListDefinitions_loop 0 (take (min (length document) htmlStart) document) Map.empty)"

text \<open>
  \<^verbatim>\<open>collectListDefinitions\<close> of the reduced \<^verbatim>\<open>src/extension.js\<close>: every line of the document
  is visited, there is no test of the indentation, and the patterns have no hyphen.
\<close>

definition collectListDefinitions_reduced_line ::
  "nat \<Rightarrow> string \<Rightarrow> (string \<rightharpoonup> nat) \<Rightarrow> (string \<rightharpoonup> nat)" where
  "collectListDefinitions_reduced_line lineIndex text definitions =
     (let trimmed = trim text in
      if trimmed = [] \<or> startsWith trimmed ''//'' \<or> startsWith trimmed ''<'' then definitions
      else
        (case LIST_BLOCK_HEADER_REGEX_with isWordChar trimmed of
           Some name \<Rightarrow>
             if \<not> startsWith name ''$'' then definitions(name \<mapsto> lineIndex) else definitions
         | None \<Rightarrow>
             (case LIST_SHORTHAND_REGEX_with isWordChar trimmed of
                Some name \<Rightarrow> definitions(name \<mapsto> lineIndex)
              | None \<Rightarrow>
                  (case DOLLAR_SHORTHAND_REGEX_with isWordChar trimmed of
                     Some name \<Rightarrow> definitions
                   | None \<Rightarrow> definitions))))"

fun collectListDefinitions_reduced_loop ::
  "nat \<Rightarrow> string list \<Rightarrow> (string \<rightharpoonup> nat) \<Rightarrow> (string \<rightharpoonup> nat)" where
  "collectListDefinitions_reduced_loop lineIndex [] definitions = definitions"
| "collectListDefinitions_reduced_loop lineIndex (text # rest) definitions =
     collectListDefinitions_reduced_loop (lineIndex + 1) rest
       (collectListDefinitions_reduced_line lineIndex text definitions)"

definition collectListDefinitions_reduced :: "string list \<Rightarrow> (string \<rightharpoonup> nat)" where
  "collectListDefinitions_reduced document =
     collectListDefinitions_reduced_loop 0 document Map.empty"

section \<open>The interactive analyzer\<close>

record diagnostic =
  d_line :: nat
  d_start :: nat
  d_end :: nat
  d_message :: string
  d_code :: "string option"
  d_data :: "nat option"

text \<open>
  \<^verbatim>\<open>createDiagnostic(line, start, end, message, code, data)\<close>: the range is
  \<^verbatim>\<open>new vscode.Range(line, start, line, Math.max(start + 1, end))\<close>.
\<close>

definition createDiagnostic ::
  "nat \<Rightarrow> nat \<Rightarrow> nat \<Rightarrow> string \<Rightarrow> string \<Rightarrow> nat option \<Rightarrow> diagnostic" where
  "createDiagnostic line start end' message code data =
     \<lparr>d_line = line, d_start = start, d_end = max (start + 1) end', d_message = message,
      d_code = Some code, d_data = data\<rparr>"

record config =
  checkDuplicates :: bool
  checkIndentation :: bool
  checkIfElseEquals :: bool

record docState =
  diagnostics :: "diagnostic list"
  listNameIndex :: "string \<rightharpoonup> nat"
  functionIndentLevel :: "nat option"

definition pushDiagnostic :: "diagnostic \<Rightarrow> docState \<Rightarrow> docState" where
  "pushDiagnostic d st = st\<lparr>diagnostics := diagnostics st @ [d]\<rparr>"

text \<open>One iteration of the loop of \<^verbatim>\<open>analyzeDocument\<close> over the lines before the boundary.\<close>

definition analyzeDocument_line :: "config \<Rightarrow> nat \<Rightarrow> string \<Rightarrow> docState \<Rightarrow> docState" where
  "analyzeDocument_line cfg index line st =
     (let trimmed = trim line in
      if trimmed = [] \<or> startsWith trimmed ''//'' then st
      else
        let indent = leadingIndent line;
            indentLevel = countIndentLevel indent;
            content = drop (length indent) line;
            commentFree = stripComment content;
            commentFreeTrimmed = trim commentFree;
            st1 = (case functionIndentLevel st of
                     Some level \<Rightarrow>
                       if indentLevel \<le> level then st\<lparr>functionIndentLevel := None\<rparr> else st
                   | None \<Rightarrow> st);
            st2 = (if isFunctionListStart commentFreeTrimmed
                   then st1\<lparr>functionIndentLevel := Some indentLevel\<rparr> else st1);
            st3 =
              (if checkDuplicates cfg \<and> indent = [] then
                 (case parseListName commentFreeTrimmed of
                    None \<Rightarrow> st2
                  | Some listName \<Rightarrow>
                      if listNameIndex st2 listName \<noteq> None then
                        pushDiagnostic
                          (createDiagnostic index 0 (length listName)
                             ''Duplicate top-level list name.'' ''perchance.duplicateListName'' None)
                          st2
                      else st2\<lparr>listNameIndex := (listNameIndex st2)(listName \<mapsto> index)\<rparr>)
               else st2);
            st4 =
              (if checkIndentation cfg \<and> indent \<noteq> [] then
                 (let st5 =
                        (if includesStr indent [TAB] \<and> includesStr indent [SPACE] then
                           pushDiagnostic
                             (createDiagnostic index 0 (length indent)
                                ''Mixed tabs and spaces in indentation.''
                                ''perchance.indentationMixed'' None)
                             st3
                         else st3);
                      spaceCount = length (filter (\<lambda>c. c \<noteq> TAB) indent)
                  in if spaceCount mod 2 \<noteq> 0 then
                       pushDiagnostic
                         (createDiagnostic index 0 (length indent)
                            ''Indentation should use tabs or multiples of two spaces.''
                            ''perchance.indentationSpacing'' None)
                         st5
                     else st5)
               else st3);
            skipPerchanceBlocks =
              (case functionIndentLevel st4 of None \<Rightarrow> False | Some level \<Rightarrow> level < indentLevel)
        in if checkIfElseEquals cfg \<and> \<not> skipPerchanceBlocks then
             st4\<lparr>diagnostics := diagnostics st4 @
                   map (\<lambda>warning.
                         createDiagnostic index (length indent + span_start warning)
                           (length indent + span_end warning)
                           ''If/else conditions should use == instead of =.''
                           ''perchance.ifElseSingleEquals'' (Some index))
                     (findIfElseSingleEquals commentFree)\<rparr>
           else st4)"

fun analyzeDocument_loop :: "config \<Rightarrow> nat \<Rightarrow> string list \<Rightarrow> docState \<Rightarrow> docState" where
  "analyzeDocument_loop cfg index [] st = st"
| "analyzeDocument_loop cfg index (line # rest) st =
     analyzeDocument_loop cfg (index + 1) rest (analyzeDocument_line cfg index line st)"

text \<open>The diagnostics for references whose name is not in the definitions.\<close>

definition unknownReferences :: "string list \<Rightarrow> diagnostic list" where
  "unknownReferences document =
     (let definitions = collectListDefinitions document;
          references = collectListReferences document
      in map (\<lambda>ref.
               \<lparr>d_line = ref_line ref, d_start = ref_start ref, d_end = ref_end ref,
                d_message = ''Unknown list reference: '' @ ref_name ref,
                d_code = None, d_data = None\<rparr>)
           (filter (\<lambda>ref. definitions (ref_name ref) = None) references))"

definition analyzeDocument_state :: "string list \<Rightarrow> config \<Rightarrow> docState" where
  "analyzeDocument_state document cfg =
     (let lines = document;
          htmlStart = findHtmlStart lines
      in analyzeDocument_loop cfg 0 (take htmlStart lines)
           \<lparr>diagnostics = unknownReferences document, listNameIndex = Map.empty,
            functionIndentLevel = None\<rparr>)"

definition analyzeDocument :: "string list \<Rightarrow> config \<Rightarrow> diagnostic list" where
  "analyzeDocument document cfg =
     (if \<not> checkDuplicates cfg \<and> \<not> checkIndentation cfg \<and> \<not> checkIfElseEquals cfg
      then unknownReferences document
      else diagnostics (analyzeDocument_state document cfg))"

section \<open>The rules in the words of the specification\<close>

text \<open>
  A list line is a line that is neither blank nor a comment; it is indented when its leading
  run of tabs and spaces is not empty, and top-level otherwise.
\<close>

definition listLine :: "string \<Rightarrow> bool" where
  "listLine line = (trim line \<noteq> [] \<and> \<not> startsWith (trim line) ''//'')"

definition indentedLine :: "string \<Rightarrow> bool" where
  "indentedLine line = (listLine line \<and> leadingIndent line \<noteq> [])"

definition topLevelLine :: "string \<Rightarrow> bool" where
  "topLevelLine line = (listLine line \<and> leadingIndent line = [])"

definition mixedIndent :: "string \<Rightarrow> bool" where
  "mixedIndent line = (TAB \<in> set (leadingIndent line) \<and> SPACE \<in> set (leadingIndent line))"

definition oddIndent :: "string \<Rightarrow> bool" where
  "oddIndent line = odd (count_list (leadingIndent line) SPACE)"

text \<open>
  The name under which the duplicate rule records a line: of the batch script (names starting
  with \<open>$\<close> are not recorded) and of the interactive analyzer (the name is read after the comment
  is stripped).
\<close>

definition batchTopName :: "string \<Rightarrow> string option" where
  "batchTopName line =
     (if topLevelLine line then
        (case parseListName (trim line) of
           None \<Rightarrow> None
         | Some n \<Rightarrow> if startsWith n ''$'' then None else Some n)
      else None)"

definition docTopName :: "string \<Rightarrow> string option" where
  "docTopName line =
     (if topLevelLine line then parseListName (trim (stripComment line)) else None)"

definition alreadyRecorded :: "(string \<Rightarrow> string option) \<Rightarrow> string list \<Rightarrow> nat \<Rightarrow> bool" where
  "alreadyRecorded nameOf lines i =
     (nameOf (lines ! i) \<noteq> None \<and> (\<exists>j < i. nameOf (lines ! j) = nameOf (lines ! i)))"

definition nameOr :: "string option \<Rightarrow> string" where
  "nameOr n = (case n of None \<Rightarrow> [] | Some s \<Rightarrow> s)"

definition listHeaderAfterHtml :: "string \<Rightarrow> bool" where
  "listHeaderAfterHtml line =
     (trim line \<noteq> [] \<and> \<not> startsWith (trim line) ''<!--'' \<and> isListHeaderLine (trim line))"

section \<open>The findings of the batch analyzer\<close>

definition wDup :: "nat \<Rightarrow> string \<Rightarrow> warning" where
  "wDup i n = \<lparr>w_line = i + 1, w_code = ''duplicate-list'',
               w_message = ''Duplicate top-level list name: '' @ n\<rparr>"

definition wMixed :: "nat \<Rightarrow> warning" where
  "wMixed i = \<lparr>w_line = i + 1, w_code = ''mixed-indent'',
               w_message = ''Mixed tabs and spaces in indentation''\<rparr>"

definition wOdd :: "nat \<Rightarrow> warning" where
  "wOdd i = \<lparr>w_line = i + 1, w_code = ''odd-indent'',
             w_message = ''Indentation should use tabs or multiples of two spaces''\<rparr>"

definition wSingle :: "nat \<Rightarrow> warning" where
  "wSingle i = \<lparr>w_line = i + 1, w_code = ''single-equals'',
                w_message = ''If/else conditions should use == instead of =''\<rparr>"

definition batchAfter :: "string list \<Rightarrow> nat \<Rightarrow> batchState" where
  "batchAfter lines k =
     analyzePerchance_loop 0 (take k lines) \<lparr>b_warnings = [], b_listNameIndex = Map.empty\<rparr>"

definition wListAfterHtml :: "nat \<Rightarrow> warning" where
  "wListAfterHtml i = \<lparr>w_line = i + 1, w_code = ''list-after-html'',
                       w_message = ''List header appears after HTML start''\<rparr>"

section \<open>The findings of the interactive analyzer\<close>

definition dDup :: "nat \<Rightarrow> string \<Rightarrow> diagnostic" where
  "dDup i n = createDiagnostic i 0 (length n) ''Duplicate top-level list name.''
                ''perchance.duplicateListName'' None"

definition dMixed :: "nat \<Rightarrow> string \<Rightarrow> diagnostic" where
  "dMixed i line = createDiagnostic i 0 (length (leadingIndent line))
                ''Mixed tabs and spaces in indentation.'' ''perchance.indentationMixed'' None"

definition dOdd :: "nat \<Rightarrow> string \<Rightarrow> diagnostic" where
  "dOdd i line = createDiagnostic i 0 (length (leadingIndent line))
                ''Indentation should use tabs or multiples of two spaces.''
                ''perchance.indentationSpacing'' None"

definition dupDiagnostics :: "(string \<rightharpoonup> nat) \<Rightarrow> nat \<Rightarrow> string option \<Rightarrow> diagnostic list" where
  "dupDiagnostics recorded i nm =
     (case nm of None \<Rightarrow> [] | Some n \<Rightarrow> if recorded n \<noteq> None then [dDup i n] else [])"

definition docAfter :: "config \<Rightarrow> diagnostic list \<Rightarrow> string list \<Rightarrow> nat \<Rightarrow> docState" where
  "docAfter cfg ds lines k =
     analyzeDocument_loop cfg 0 (take k lines)
       \<lparr>diagnostics = ds, listNameIndex = Map.empty, functionIndentLevel = None\<rparr>"

section \<open>Declarations in the words of the specification\<close>

definition declaredName :: "string \<Rightarrow> string option" where
  "declaredName line =
     (let trimmed = trim line in
      if trimmed = [] \<or> startsWith trimmed ''//'' \<or> startsWith trimmed ''<'' then None
      else if (case line of [] \<Rightarrow> False | c # cs \<Rightarrow> isWhiteSpace c) then
        (case LIST_BLOCK_HEADER_REGEX trimmed of
           Some n \<Rightarrow> if startsWith n ''$'' then None else Some n
         | None \<Rightarrow> LIST_SHORTHAND_REGEX trimmed)
      else
        (case parseListName trimmed of
           Some n \<Rightarrow> if startsWith n ''$'' then None else Some n
         | None \<Rightarrow> None))"

definition declaredName_reduced :: "string \<Rightarrow> string option" where
  "declaredName_reduced line =
     (let trimmed = trim line in
      if trimmed = [] \<or> startsWith trimmed ''//'' \<or> startsWith trimmed ''<'' then None
      else
        (case LIST_BLOCK_HEADER_REGEX_with isWordChar trimmed of
           Some n \<Rightarrow> if startsWith n ''$'' then None else Some n
         | None \<Rightarrow> LIST_SHORTHAND_REGEX_with isWordChar trimmed))"

definition lastDeclaration :: "(string \<Rightarrow> string option) \<Rightarrow> string list \<Rightarrow> nat \<Rightarrow> string \<Rightarrow> nat \<Rightarrow> bool" where
  "lastDeclaration nameOf lines k n j =
     (j < k \<and> nameOf (lines ! j) = Some n
      \<and> (\<forall>j'. j < j' \<and> j' < k \<longrightarrow> nameOf (lines ! j') \<noteq> Some n))"

section \<open>The quick fix for a single equals sign\<close>

text \<open>
  \<^verbatim>\<open>replaceFirstSingleEquals(text, replacement)\<close>: the loop of \<^verbatim>\<open>hasSingleEquals\<close>, returning the
  text with the character at the first accepted position replaced, \<open>None\<close> for \<^verbatim>\<open>null\<close>.
\<close>

function replaceFirstSingleEquals_from :: "string \<Rightarrow> string \<Rightarrow> nat \<Rightarrow> string option" where
  "replaceFirstSingleEquals_from text replacement i =
     (if i < length text then
        (if text ! i \<noteq> CHR ''='' then replaceFirstSingleEquals_from text replacement (i + 1)
         else
           (let prev = (if i = 0 then None else Some (text ! (i - 1)));
                nxt = (if i + 1 < length text then Some (text ! (i + 1)) else None)
            in if prev = Some CHR ''='' \<or> nxt = Some CHR ''=''
                 then replaceFirstSingleEquals_from text replacement (i + 1)
               else if prev = Some CHR ''!'' \<or> prev = Some CHR ''>'' \<or> prev = Some CHR ''<''
                 then replaceFirstSingleEquals_from text replacement (i + 1)
               else if nxt = Some CHR ''>''
                 then replaceFirstSingleEquals_from text replacement (i + 1)
               else Some (take i text @ replacement @ drop (i + 1) text)))
      else None)"
  by pat_completeness auto
termination
  by (relation "measure (\<lambda>(text, replacement, i). length text - i)") auto

declare replaceFirstSingleEquals_from.simps [simp del]

definition replaceFirstSingleEquals :: "string \<Rightarrow> string \<Rightarrow> string option" where
  "replaceFirstSingleEquals text replacement = replaceFirstSingleEquals_from text replacement 0"

text \<open>
  The pattern \<^verbatim>\<open>/\[([^\]]+\?[^\]]+:[^\]]+)\]/\<close>, anchored; the result is capture group 1. The
  three runs and the two literal characters between them consume characters other than \<open>]\<close>
  only, and the pattern ends with \<open>]\<close>: the group is the whole run of characters other than \<open>]\<close>
  that follows the opening bracket. The engine backtracks over the ways of splitting that run;
  \<open>ternaryShape\<close> says that some split exists: a \<open>?\<close> at a position \<open>q\<close> with at least one
  character before it, and a \<open>:\<close> at a position \<open>k\<close> with at least one character between the two
  and at least one after.
\<close>

definition ternaryShape :: "string \<Rightarrow> bool" where
  "ternaryShape content =
     list_ex (\<lambda>q. content ! q = CHR ''?''
                \<and> list_ex (\<lambda>k. content ! k = CHR '':'') [q + 2..<length content - 1])
       [1..<length content]"

fun ternaryBracketRegex :: "string \<Rightarrow> string option" where
  "ternaryBracketRegex [] = None"
| "ternaryBracketRegex (c # cs) =
     (if c = CHR ''['' \<and> dropWhile (\<lambda>d. d \<noteq> CHR '']'') cs \<noteq> []
         \<and> ternaryShape (takeWhile (\<lambda>d. d \<noteq> CHR '']'') cs)
      then Some (takeWhile (\<lambda>d. d \<noteq> CHR '']'') cs) else None)"

text \<open>
  \<^verbatim>\<open>String.prototype.replace(searchValue, replaceValue)\<close> with two strings replaces the first
  occurrence of \<^verbatim>\<open>searchValue\<close> by the expansion of \<^verbatim>\<open>replaceValue\<close>, in which \<^verbatim>\<open>$$\<close> stands for
  \<open>$\<close>, \<^verbatim>\<open>$&\<close> for the matched text, \<^verbatim>\<open>$`\<close> (character code 96) for the text before the match and
  \<^verbatim>\<open>$'\<close> (character code 39) for the text after it. There are no capture groups, so \<open>$\<close>
  followed by anything else is copied as it stands.
\<close>

fun getSubstitution :: "string \<Rightarrow> string \<Rightarrow> nat \<Rightarrow> string \<Rightarrow> string" where
  "getSubstitution matched str position [] = []"
| "getSubstitution matched str position [c] = [c]"
| "getSubstitution matched str position (c # d # rest) =
     (if c = CHR ''$'' \<and> d = CHR ''$''
        then CHR ''$'' # getSubstitution matched str position rest
      else if c = CHR ''$'' \<and> d = CHR 0x60
        then take position str @ getSubstitution matched str position rest
      else if c = CHR ''$'' \<and> d = CHR ''&''
        then matched @ getSubstitution matched str position rest
      else if c = CHR ''$'' \<and> d = CHR 0x27
        then drop (position + length matched) str @ getSubstitution matched str position rest
      else c # getSubstitution matched str position (d # rest))"

definition stringReplace :: "string \<Rightarrow> string \<Rightarrow> string \<Rightarrow> string" where
  "stringReplace str searchValue replaceValue =
     (case indexOf str searchValue of
        None \<Rightarrow> str
      | Some position \<Rightarrow>
          take position str @ getSubstitution searchValue str position replaceValue
            @ drop (position + length searchValue) str)"

text \<open>
  \<^verbatim>\<open>replaceSingleEqualsInIfElse(lineText)\<close>: \<^verbatim>\<open>lineText.match\<close> of a pattern without the global flag
  is the first match; \<^verbatim>\<open>match[0]\<close> is the group between its two brackets.
\<close>

definition replaceSingleEqualsInIfElse :: "string \<Rightarrow> string option" where
  "replaceSingleEqualsInIfElse lineText =
     (case regexExec ternaryBracketRegex lineText 0 of
        None \<Rightarrow> None
      | Some (index, block) \<Rightarrow>
          (case indexOf block ''?'' of
             None \<Rightarrow> None
           | Some questionIndex \<Rightarrow>
               (case replaceFirstSingleEquals (take questionIndex block) ''=='' of
                  None \<Rightarrow> None
                | Some conditionFixed \<Rightarrow>
                    Some (stringReplace lineText (''['' @ block @ '']'')
                            (''['' @ (conditionFixed @ drop questionIndex block) @ '']'')))))"

text \<open>
  The quick fix in the words of the specification: position \<open>j\<close> is the first single equals
  sign of a condition.
\<close>

definition firstSingleEquals :: "string \<Rightarrow> nat \<Rightarrow> bool" where
  "firstSingleEquals cond j = (singleEqualsAt cond j \<and> (\<forall>k < j. \<not> singleEqualsAt cond k))"

section \<open>Properties of the indentation level\<close>

lemma countIndentLevel_loop_count:
  "spaces < 2 \<Longrightarrow>
   countIndentLevel_loop level spaces cs =
     level + count_list cs TAB + (spaces + count_list cs SPACE) div 2"
proof (induction cs arbitrary: level spaces)
  case Nil
  then show ?case by simp
next
  case (Cons c cs)
  have ne: "TAB \<noteq> SPACE" by (simp add: TAB_def SPACE_def)
  consider (tab) "c = TAB" | (sp1) "c = SPACE" "spaces = 1" | (sp0) "c = SPACE" "spaces = 0"
    | (other) "c \<noteq> TAB" "c \<noteq> SPACE"
    using Cons.prems by fastforce
  then show ?case
  proof cases
    case tab
    with Cons ne show ?thesis by simp
  next
    case sp1
    have "countIndentLevel_loop (level + 1) 0 cs =
            level + 1 + count_list cs TAB + (0 + count_list cs SPACE) div 2"
      by (rule Cons.IH) simp
    with sp1 ne show ?thesis by simp
  next
    case sp0
    have "countIndentLevel_loop level 1 cs =
            level + count_list cs TAB + (1 + count_list cs SPACE) div 2"
      by (rule Cons.IH) simp
    with sp0 ne show ?thesis by simp
  next
    case other
    with Cons show ?thesis by simp
  qed
qed

text \<open>
  Claim C5. \<^verbatim>\<open>countIndentLevel\<close> returns the number of tab characters plus half the number
  of space characters, rounded down (a leftover odd space is not counted). Two tabs give 2,
  four spaces give 2, three spaces give 1.
\<close>

theorem countIndentLevel_tabs_plus_half_spaces:
  "countIndentLevel indent = count_list indent TAB + count_list indent SPACE div 2
   \<and> countIndentLevel [TAB, TAB] = 2
   \<and> countIndentLevel [SPACE, SPACE, SPACE, SPACE] = 2
   \<and> countIndentLevel [SPACE, SPACE, SPACE] = 1"
proof -
  have "countIndentLevel indent = count_list indent TAB + count_list indent SPACE div 2"
    unfolding countIndentLevel_def by (simp add: countIndentLevel_loop_count)
  moreover have "countIndentLevel [TAB, TAB] = 2"
    by (simp add: countIndentLevel_def)
  moreover have "countIndentLevel [SPACE, SPACE, SPACE, SPACE] = 2"
    by (simp add: countIndentLevel_def TAB_def SPACE_def)
  moreover have "countIndentLevel [SPACE, SPACE, SPACE] = 1"
    by (simp add: countIndentLevel_def TAB_def SPACE_def)
  ultimately show ?thesis by simp
qed

section \<open>Properties of the boundary detector\<close>

lemma dropWhile_all_iff: "(\<forall>x \<in> set (dropWhile P s). P x) \<longleftrightarrow> (\<forall>x \<in> set s. P x)"
proof
  assume a: "\<forall>x \<in> set (dropWhile P s). P x"
  have "dropWhile P s = []"
  proof (rule ccontr)
    assume ne: "dropWhile P s \<noteq> []"
    then have "\<not> P (hd (dropWhile P s))" by (rule hd_dropWhile)
    moreover from ne have "hd (dropWhile P s) \<in> set (dropWhile P s)" by simp
    ultimately show False using a by blast
  qed
  then show "\<forall>x \<in> set s. P x" by (simp add: dropWhile_eq_Nil_conv)
next
  assume "\<forall>x \<in> set s. P x"
  then show "\<forall>x \<in> set (dropWhile P s). P x" by (meson set_dropWhileD)
qed

lemma trim_empty_iff: "trim s = [] \<longleftrightarrow> (\<forall>c \<in> set s. isWhiteSpace c)"
proof -
  have "trim s = [] \<longleftrightarrow> (\<forall>c \<in> set (dropWhile isWhiteSpace s). isWhiteSpace c)"
    unfolding trim_def trimEnd_def trimStart_def by (simp add: dropWhile_eq_Nil_conv)
  then show ?thesis by (simp add: dropWhile_all_iff)
qed

lemma containsTagOpen_Nil: "\<not> containsTagOpen []"
  by (simp add: containsTagOpen_def)

lemma containsTagOpen_Cons:
  "containsTagOpen (c # cs) \<longleftrightarrow>
     (c = CHR ''<'' \<and> (\<exists>d ds. cs = d # ds \<and> (isAlpha d \<or> (d = CHR ''/'' \<and> (\<exists>e es. ds = e # es \<and> isAlpha e)))))
     \<or> containsTagOpen cs"
  (is "?L \<longleftrightarrow> ?H \<or> ?T")
proof
  assume ?L
  then obtain pre a post where a: "isAlpha a"
    and s: "c # cs = pre @ ''<'' @ a # post \<or> c # cs = pre @ ''</'' @ a # post"
    unfolding containsTagOpen_def by blast
  show "?H \<or> ?T"
  proof (cases pre)
    case Nil
    with a s have ?H by auto
    then show ?thesis ..
  next
    case (Cons p pre')
    with s have "cs = pre' @ ''<'' @ a # post \<or> cs = pre' @ ''</'' @ a # post" by auto
    with a have ?T unfolding containsTagOpen_def by blast
    then show ?thesis ..
  qed
next
  assume "?H \<or> ?T"
  then show ?L
  proof
    assume ?H
    then consider (open_tag) d ds where "c = CHR ''<''" "cs = d # ds" "isAlpha d"
      | (close_tag) e es where "c = CHR ''<''" "cs = CHR ''/'' # e # es" "isAlpha e"
      by blast
    then show ?L
    proof cases
      case open_tag
      then have "isAlpha d \<and> c # cs = [] @ ''<'' @ d # ds" by simp
      then show ?thesis unfolding containsTagOpen_def by blast
    next
      case close_tag
      then have "isAlpha e \<and> c # cs = [] @ ''</'' @ e # es" by simp
      then show ?thesis unfolding containsTagOpen_def by blast
    qed
  next
    assume ?T
    then obtain pre a post where a: "isAlpha a"
      and s: "cs = pre @ ''<'' @ a # post \<or> cs = pre @ ''</'' @ a # post"
      unfolding containsTagOpen_def by blast
    then have "c # cs = (c # pre) @ ''<'' @ a # post \<or> c # cs = (c # pre) @ ''</'' @ a # post"
      by simp
    with a show ?L unfolding containsTagOpen_def by blast
  qed
qed

lemma tagOpenMatch_iff: "tagOpenMatch s \<longleftrightarrow> containsTagOpen s"
proof (induction s)
  case Nil
  show ?case by (simp add: containsTagOpen_Nil)
next
  case (Cons c cs)
  show ?case
    unfolding containsTagOpen_Cons tagOpenMatch.simps Cons.IH
    by (auto split: list.splits)
qed

lemma containsTagOpen_dropWhile:
  "containsTagOpen (dropWhile isWhiteSpace s) \<longleftrightarrow> containsTagOpen s"
proof (induction s)
  case Nil
  show ?case by simp
next
  case (Cons c cs)
  have "isWhiteSpace c \<Longrightarrow> c \<noteq> CHR ''<''" by (auto simp: isWhiteSpace_def)
  with Cons show ?case by (auto simp: containsTagOpen_Cons)
qed

lemma looksLikeHtmlStart_iff:
  "looksLikeHtmlStart line \<longleftrightarrow>
     (let run = length (takeWhile (\<lambda>c. c = CHR ''<'') (dropWhile isWhiteSpace line))
      in 1 \<le> run \<and> run < 5) \<and> containsTagOpen line"
proof -
  define t where "t = dropWhile isWhiteSpace line"
  define run where "run = length (takeWhile (\<lambda>c. c = CHR ''<'') t)"
  have s1: "startsWith t ''<'' \<longleftrightarrow> 1 \<le> run"
    unfolding startsWith_def run_def by (cases t) auto
  have s5: "startsWith t ''<<<<<'' \<longleftrightarrow> 5 \<le> run"
  proof
    assume "startsWith t ''<<<<<''"
    then obtain r where "t = ''<<<<<'' @ r"
      unfolding startsWith_def by (metis append_take_drop_id)
    then show "5 \<le> run" unfolding run_def by simp
  next
    assume "5 \<le> run"
    then have len: "5 \<le> length (takeWhile (\<lambda>c. c = CHR ''<'') t)" by (simp add: run_def)
    have "take 5 t = take 5 (takeWhile (\<lambda>c. c = CHR ''<'') t)"
      using len by (metis takeWhile_dropWhile_id take_append diff_is_0_eq take0 append_Nil2)
    moreover have "\<forall>x \<in> set (take 5 (takeWhile (\<lambda>c. c = CHR ''<'') t)). x = CHR ''<''"
      by (meson in_set_takeD set_takeWhileD)
    moreover have "length (take 5 (takeWhile (\<lambda>c. c = CHR ''<'') t)) = 5" using len by simp
    ultimately have "take 5 t = replicate 5 CHR ''<''"
      by (metis replicate_eqI)
    then show "startsWith t ''<<<<<''"
      unfolding startsWith_def by (simp add: numeral_eq_Suc)
  qed
  show ?thesis
    unfolding looksLikeHtmlStart_def trimStart_def Let_def t_def[symmetric] run_def[symmetric]
      s1 s5 tagOpenMatch_iff
    using containsTagOpen_dropWhile[of line] by (auto simp: t_def)
qed

lemma looksLikeHtmlStart_not_blank: "looksLikeHtmlStart line \<Longrightarrow> trim line \<noteq> []"
proof
  assume l: "looksLikeHtmlStart line" and "trim line = []"
  then have "dropWhile isWhiteSpace line = []"
    by (simp add: trim_empty_iff dropWhile_eq_Nil_conv)
  with l show False by (simp add: looksLikeHtmlStart_iff)
qed

lemma markupStartsAt_code:
  "markupStartsAt lines i \<longleftrightarrow>
     0 < i \<and> i < length lines \<and> trim (lines ! (i - 1)) = [] \<and> looksLikeHtmlStart (lines ! i)"
  unfolding markupStartsAt_def by (simp add: trim_empty_iff looksLikeHtmlStart_iff)

lemma findHtmlStart_loop_spec:
  assumes "lines = pre @ xs" "k = length pre" "n = length lines"
    and "b \<longleftrightarrow> 0 < k \<and> trim (lines ! (k - 1)) = []"
  shows "k \<le> findHtmlStart_loop n b k xs \<and> findHtmlStart_loop n b k xs \<le> n
         \<and> (findHtmlStart_loop n b k xs < n \<longrightarrow> markupStartsAt lines (findHtmlStart_loop n b k xs))
         \<and> (\<forall>i. k \<le> i \<and> i < findHtmlStart_loop n b k xs \<longrightarrow> \<not> markupStartsAt lines i)"
  using assms
proof (induction xs arbitrary: pre k b)
  case Nil
  then show ?case by auto
next
  case (Cons x xs)
  have xk: "lines ! k = x" using Cons.prems by simp
  have kn: "k < n" using Cons.prems by simp
  have split: "lines = (pre @ [x]) @ xs" "k + 1 = length (pre @ [x])"
    using Cons.prems by simp_all
  show ?case
  proof (cases "trim x = []")
    case True
    have flag: "True \<longleftrightarrow> 0 < k + 1 \<and> trim (lines ! (k + 1 - 1)) = []"
      using True xk by simp
    note IH = Cons.IH[OF split(1) split(2) Cons.prems(3) flag]
    have nk: "\<not> markupStartsAt lines k"
      using True xk looksLikeHtmlStart_not_blank by (auto simp: markupStartsAt_code)
    have step: "findHtmlStart_loop n b k (x # xs) = findHtmlStart_loop n True (k + 1) xs"
      using True by simp
    show ?thesis unfolding step using IH nk
      by (metis Suc_eq_plus1 Suc_leD le_antisym not_less_eq_eq)
  next
    case False
    show ?thesis
    proof (cases "b \<and> looksLikeHtmlStart x")
      case True
      have step: "findHtmlStart_loop n b k (x # xs) = k" using False True by simp
      have "markupStartsAt lines k"
        using True Cons.prems(4) xk kn Cons.prems(3) by (simp add: markupStartsAt_code)
      then show ?thesis unfolding step using kn by auto
    next
      case nb: False
      have flag: "False \<longleftrightarrow> 0 < k + 1 \<and> trim (lines ! (k + 1 - 1)) = []"
        using False xk by simp
      note IH = Cons.IH[OF split(1) split(2) Cons.prems(3) flag]
      have nk: "\<not> markupStartsAt lines k"
        using nb xk Cons.prems(4) by (auto simp: markupStartsAt_code)
      have step: "findHtmlStart_loop n b k (x # xs) = findHtmlStart_loop n False (k + 1) xs"
        using False nb by auto
      show ?thesis unfolding step using IH nk
        by (metis Suc_eq_plus1 Suc_leD le_antisym not_less_eq_eq)
    qed
  qed
qed

text \<open>
  Claim C3. \<^verbatim>\<open>findHtmlStart\<close> returns the index of the first line that directly follows a
  blank line, starts (after left-trim) with one to four \<open><\<close> characters and contains \<open><\<close> or
  \<open></\<close> followed by a letter; when there is no such line it returns the number of lines.
  Since every non-blank line that does not end the scan clears the saw-blank flag, the flag is set
  at a line exactly when the line before it is blank.
\<close>

theorem findHtmlStart_first_markup_line:
  "findHtmlStart lines \<le> length lines
   \<and> (findHtmlStart lines < length lines \<longrightarrow> markupStartsAt lines (findHtmlStart lines))
   \<and> (\<forall>i < findHtmlStart lines. \<not> markupStartsAt lines i)
   \<and> ((\<forall>i < length lines. \<not> markupStartsAt lines i) \<longrightarrow> findHtmlStart lines = length lines)"
proof -
  have "lines = [] @ lines" "0 = length ([]::string list)" "length lines = length lines"
    "False \<longleftrightarrow> 0 < (0::nat) \<and> trim (lines ! (0 - 1)) = []" by simp_all
  from findHtmlStart_loop_spec[OF this]
  show ?thesis unfolding findHtmlStart_def by (metis le_neq_implies_less less_eq_nat.simps(1) nat_less_le)
qed

theorem findHtmlStart_first_markup_line_witness:
  "findHtmlStart [''animal'', TAB # ''cat'', '''', ''<div>''] = 3
   \<and> markupStartsAt [''animal'', TAB # ''cat'', '''', ''<div>''] 3
   \<and> \<not> markupStartsAt [''animal'', TAB # ''cat'', '''', ''<div>''] 2
   \<and> findHtmlStart [''animal'', TAB # ''cat'', ''<div>''] = 3"
proof -
  have e: "findHtmlStart [''animal'', TAB # ''cat'', '''', ''<div>''] = 3"
    by (simp add: findHtmlStart_def trim_def trimEnd_def trimStart_def isWhiteSpace_def TAB_def
        looksLikeHtmlStart_def startsWith_def isAlpha_def)
  have f: "findHtmlStart [''animal'', TAB # ''cat'', ''<div>''] = 3"
    by (simp add: findHtmlStart_def trim_def trimEnd_def trimStart_def isWhiteSpace_def TAB_def
        looksLikeHtmlStart_def startsWith_def isAlpha_def)
  show ?thesis
    using findHtmlStart_first_markup_line[of "[''animal'', TAB # ''cat'', '''', ''<div>'']"] e f
    by simp
qed

section \<open>Properties of reference extraction\<close>

lemma regexSearch_Some:
  "regexSearch m pos s = Some (index, r) \<Longrightarrow>
     pos \<le> index \<and> index - pos \<le> length s \<and> m (drop (index - pos) s) = Some r
     \<and> (\<forall>j < index - pos. m (drop j s) = None)"
proof (induction s arbitrary: pos)
  case Nil
  then show ?case by (simp split: option.splits)
next
  case (Cons c cs)
  show ?case
  proof (cases "m (c # cs)")
    case None
    with Cons.prems have rec: "regexSearch m (pos + 1) cs = Some (index, r)" by simp
    note IH = Cons.IH[OF rec]
    from IH have le: "pos + 1 \<le> index" by simp
    then have d: "index - pos = Suc (index - (pos + 1))" by simp
    have "\<forall>j < index - pos. m (drop j (c # cs)) = None"
    proof (intro allI impI)
      fix j assume j: "j < index - pos"
      show "m (drop j (c # cs)) = None"
      proof (cases j)
        case 0
        with None show ?thesis by simp
      next
        case (Suc j')
        with j d have "j' < index - (pos + 1)" by simp
        with IH Suc show ?thesis by simp
      qed
    qed
    with IH le d show ?thesis by simp
  next
    case (Some a)
    with Cons.prems show ?thesis by simp
  qed
qed

lemma regexSearch_None:
  "regexSearch m pos s = None \<Longrightarrow> j \<le> length s \<Longrightarrow> m (drop j s) = None"
proof (induction s arbitrary: pos j)
  case Nil
  then show ?case by (simp split: option.splits)
next
  case (Cons c cs)
  from Cons.prems(1) have n: "m (c # cs) = None" and rec: "regexSearch m (pos + 1) cs = None"
    by (simp_all split: option.splits)
  show ?case
  proof (cases j)
    case 0
    with n show ?thesis by simp
  next
    case (Suc j')
    with Cons.prems(2) have "j' \<le> length cs" by simp
    from Cons.IH[OF rec this] Suc show ?thesis by simp
  qed
qed

lemma regexExec_Some:
  assumes "regexExec m str k = Some (index, r)"
  shows "k \<le> index" "index \<le> length str" "m (drop index str) = Some r"
    "\<And>p. k \<le> p \<Longrightarrow> p < index \<Longrightarrow> m (drop p str) = None"
proof -
  from assms have kl: "k \<le> length str"
    and s: "regexSearch m k (drop k str) = Some (index, r)"
    by (simp_all add: regexExec_def split: if_splits)
  note S = regexSearch_Some[OF s]
  from S show "k \<le> index" by simp
  from S kl show "index \<le> length str" by (simp, arith)
  from S show "m (drop index str) = Some r" by auto
  fix p assume "k \<le> p" "p < index"
  then have "p - k < index - k" by simp
  with S have "m (drop (p - k) (drop k str)) = None" by blast
  with \<open>k \<le> p\<close> show "m (drop p str) = None" by simp
qed

lemma regexExec_None:
  assumes "regexExec m str k = None" "k \<le> p" "p \<le> length str"
  shows "m (drop p str) = None"
proof -
  from assms have s: "regexSearch m k (drop k str) = None"
    by (simp add: regexExec_def split: if_splits)
  from assms have "p - k \<le> length (drop k str)" by simp
  from regexSearch_None[OF s this] assms show ?thesis by simp
qed

lemma identStart_not_bracket: "identStart c \<Longrightarrow> c \<noteq> CHR ''['' \<and> c \<noteq> CHR '']''"
  by (auto simp: identStart_def isAlpha_def)

lemma identPart_not_bracket: "\<not> identPart CHR '']''" "\<not> identPart CHR ''[''"
  by (simp_all add: identPart_def isAlpha_def isDigit_def)

lemma isWordChar_not_bracket: "\<not> isWordChar CHR '']''" "\<not> isWordChar CHR ''[''"
  by (simp_all add: isWordChar_def isAlpha_def isDigit_def)

lemma startsWith_iff: "startsWith s p \<longleftrightarrow> (\<exists>r. s = p @ r)"
  unfolding startsWith_def by (metis append_eq_conv_conj append_take_drop_id)

lemma LIST_REF_REGEX_with_iff:
  assumes "\<not> part CHR '']''"
  shows "LIST_REF_REGEX_with part s = Some nm \<longleftrightarrow>
           isIdentifier part nm \<and> (\<exists>post. s = ''[['' @ nm @ '']]'' @ post)"
proof
  assume m: "LIST_REF_REGEX_with part s = Some nm"
  then obtain a b c rest where s: "s = a # b # c # rest"
    by (cases "(part, s)" rule: LIST_REF_REGEX_with.cases) auto
  from m s have ab: "a = CHR ''[''" "b = CHR ''[''" and c: "identStart c"
    and sw: "startsWith (dropWhile part rest) '']]''" and nm: "nm = c # takeWhile part rest"
    by (auto split: if_splits)
  from sw obtain post where d: "dropWhile part rest = '']]'' @ post"
    unfolding startsWith_iff by blast
  have "rest = takeWhile part rest @ dropWhile part rest" by simp
  with d have "rest = takeWhile part rest @ '']]'' @ post" by simp
  with s ab nm have "s = ''[['' @ nm @ '']]'' @ post" by simp
  moreover have "isIdentifier part nm"
    using c nm by (auto simp: isIdentifier_def dest: set_takeWhileD)
  ultimately show "isIdentifier part nm \<and> (\<exists>post. s = ''[['' @ nm @ '']]'' @ post)" by blast
next
  assume "isIdentifier part nm \<and> (\<exists>post. s = ''[['' @ nm @ '']]'' @ post)"
  then obtain c cs post where nm: "nm = c # cs" and c: "identStart c" and cs: "\<forall>d \<in> set cs. part d"
    and s: "s = ''[['' @ nm @ '']]'' @ post"
    by (auto simp: isIdentifier_def split: list.splits)
  have tw: "takeWhile part (cs @ '']]'' @ post) = cs"
    using cs assms by (simp add: takeWhile_append2)
  have dw: "dropWhile part (cs @ '']]'' @ post) = '']]'' @ post"
    using cs assms by (simp add: dropWhile_append2)
  from s nm have "s = CHR ''['' # CHR ''['' # c # (cs @ '']]'' @ post)" by simp
  then show "LIST_REF_REGEX_with part s = Some nm"
    using c tw dw nm by (simp add: startsWith_def)
qed

lemma LIST_REF_REGEX_with_hd:
  "LIST_REF_REGEX_with part s = Some nm \<Longrightarrow> \<exists>t. s = CHR ''['' # CHR ''['' # t"
  by (cases "(part, s)" rule: LIST_REF_REGEX_with.cases) (auto split: if_splits)

lemma LIST_REF_REGEX_with_inside:
  assumes np: "\<not> part CHR '']''" "\<not> part CHR ''[''"
    and m: "LIST_REF_REGEX_with part s = Some nm" and j: "0 < j" "j < length nm + 4"
  shows "LIST_REF_REGEX_with part (drop j s) = None"
proof (rule ccontr)
  assume "LIST_REF_REGEX_with part (drop j s) \<noteq> None"
  then obtain nm' where "LIST_REF_REGEX_with part (drop j s) = Some nm'" by blast
  then obtain t where dj: "drop j s = CHR ''['' # CHR ''['' # t"
    using LIST_REF_REGEX_with_hd by blast
  from m np(1) obtain post where id: "isIdentifier part nm" and s: "s = ''[['' @ nm @ '']]'' @ post"
    by (auto simp: LIST_REF_REGEX_with_iff)
  from id obtain c cs where nm: "nm = c # cs" and c: "identStart c" and cs: "\<forall>d \<in> set cs. part d"
    by (auto simp: isIdentifier_def split: list.splits)
  define u where "u = nm @ '']]''"
  have nob: "\<forall>d \<in> set u. d \<noteq> CHR ''[''"
    using nm c cs np(2) identStart_not_bracket unfolding u_def by auto
  have s': "s = CHR ''['' # CHR ''['' # u @ post" using s by (simp add: u_def)
  show False
  proof (cases "j = 1")
    case True
    with s' dj have "u @ post = CHR ''['' # t" by simp
    with nm have "c = CHR ''[''" by (simp add: u_def)
    with c identStart_not_bracket show False by blast
  next
    case False
    with j obtain i where ji: "j = Suc (Suc i)" and i: "i < length u"
      unfolding u_def by (cases j; cases "j - 1") auto
    with s' have "drop j s = drop i (u @ post)" by simp
    also have "\<dots> = (u @ post) ! i # drop (Suc i) (u @ post)"
      using i Cons_nth_drop_Suc[of i "u @ post"] by simp
    finally have "(u @ post) ! i = CHR ''[''" using dj by simp
    with i have "u ! i = CHR ''[''" by (simp add: nth_append)
    with nob i show False by (meson nth_mem)
  qed
qed

lemma referenceOccurs_iff:
  assumes "\<not> part CHR '']''"
  shows "referenceOccurs part str p nm \<longleftrightarrow>
           p \<le> length str \<and> LIST_REF_REGEX_with part (drop p str) = Some nm"
proof -
  have "(\<exists>pre post. str = pre @ ''[['' @ nm @ '']]'' @ post \<and> length pre = p)
        \<longleftrightarrow> p \<le> length str \<and> (\<exists>post. drop p str = ''[['' @ nm @ '']]'' @ post)"
  proof
    assume "\<exists>pre post. str = pre @ ''[['' @ nm @ '']]'' @ post \<and> length pre = p"
    then obtain pre post where "str = pre @ ''[['' @ nm @ '']]'' @ post" "length pre = p" by blast
    then show "p \<le> length str \<and> (\<exists>post. drop p str = ''[['' @ nm @ '']]'' @ post)" by auto
  next
    assume a: "p \<le> length str \<and> (\<exists>post. drop p str = ''[['' @ nm @ '']]'' @ post)"
    then obtain post where "drop p str = ''[['' @ nm @ '']]'' @ post" by blast
    then have "str = take p str @ ''[['' @ nm @ '']]'' @ post"
      by (metis append_take_drop_id)
    moreover have "length (take p str) = p" using a by simp
    ultimately show "\<exists>pre post. str = pre @ ''[['' @ nm @ '']]'' @ post \<and> length pre = p" by blast
  qed
  then show ?thesis
    unfolding referenceOccurs_def LIST_REF_REGEX_with_iff[of part, OF assms] by blast
qed

lemma collectLineReferences_set:
  assumes "\<not> part CHR '']''" "\<not> part CHR ''[''"
  shows "set (collectLineReferences part l str k) =
           {\<lparr>ref_name = nm, ref_line = l, ref_start = p, ref_end = p + (length nm + 4)\<rparr> | p nm.
              k \<le> p \<and> referenceOccurs part str p nm}"
  using assms
proof (induction part l str k rule: collectLineReferences.induct)
  case (1 part l str k)
  note np = "1.prems"
  note occ = referenceOccurs_iff[of part, OF np(1)]
  show ?case
  proof (cases "regexExec (LIST_REF_REGEX_with part) str k")
    case None
    have "\<And>p nm. k \<le> p \<Longrightarrow> \<not> referenceOccurs part str p nm"
      using regexExec_None[OF None] by (auto simp: occ)
    then show ?thesis
      using None by (auto simp: collectLineReferences.simps[of part l str k])
  next
    case (Some x)
    obtain index name where x: "x = (index, name)" by (cases x)
    note ex = Some[unfolded x]
    note E = regexExec_Some[OF ex]
    let ?e = "index + (length name + 4)"
    let ?r = "\<lparr>ref_name = name, ref_line = l, ref_start = index, ref_end = ?e\<rparr>"
    have unfold: "collectLineReferences part l str k = ?r # collectLineReferences part l str ?e"
      using ex by (simp add: collectLineReferences.simps[of part l str k])
    have IH: "set (collectLineReferences part l str ?e) =
           {\<lparr>ref_name = nm, ref_line = l, ref_start = p, ref_end = p + (length nm + 4)\<rparr> | p nm.
              ?e \<le> p \<and> referenceOccurs part str p nm}"
      using "1.IH"[OF Some x[symmetric] np] .
    have here: "referenceOccurs part str index name"
      using E(2,3) by (simp add: occ)
    have only: "\<And>p nm. k \<le> p \<Longrightarrow> referenceOccurs part str p nm \<Longrightarrow>
                  (p = index \<and> nm = name) \<or> ?e \<le> p"
    proof -
      fix p nm assume kp: "k \<le> p" and o: "referenceOccurs part str p nm"
      from o have m: "LIST_REF_REGEX_with part (drop p str) = Some nm" by (simp add: occ)
      show "(p = index \<and> nm = name) \<or> ?e \<le> p"
      proof (cases "p < index")
        case True
        with E(4)[OF kp] m show ?thesis by simp
      next
        case False
        show ?thesis
        proof (cases "p = index")
          case True
          with m E(3) show ?thesis by simp
        next
          case ne: False
          show ?thesis
          proof (rule ccontr)
            assume "\<not> ((p = index \<and> nm = name) \<or> ?e \<le> p)"
            with False ne have j: "0 < p - index" "p - index < length name + 4" by simp_all
            from LIST_REF_REGEX_with_inside[OF np E(3) j] False
            have "LIST_REF_REGEX_with part (drop p str) = None" by simp
            with m show False by simp
          qed
        qed
      qed
    qed
    show ?thesis
    proof (intro set_eqI iffI)
      fix r assume "r \<in> set (collectLineReferences part l str k)"
      then consider "r = ?r" | "r \<in> set (collectLineReferences part l str ?e)"
        unfolding unfold by auto
      then show "r \<in> {\<lparr>ref_name = nm, ref_line = l, ref_start = p, ref_end = p + (length nm + 4)\<rparr> | p nm.
              k \<le> p \<and> referenceOccurs part str p nm}"
      proof cases
        case 1
        with here E(1) show ?thesis by blast
      next
        case 2
        then obtain p nm where "r = \<lparr>ref_name = nm, ref_line = l, ref_start = p, ref_end = p + (length nm + 4)\<rparr>"
          "?e \<le> p" "referenceOccurs part str p nm"
          unfolding IH by blast
        moreover from this E(1) have "k \<le> p" by simp
        ultimately show ?thesis by blast
      qed
    next
      fix r assume "r \<in> {\<lparr>ref_name = nm, ref_line = l, ref_start = p, ref_end = p + (length nm + 4)\<rparr> | p nm.
              k \<le> p \<and> referenceOccurs part str p nm}"
      then obtain p nm where r: "r = \<lparr>ref_name = nm, ref_line = l, ref_start = p, ref_end = p + (length nm + 4)\<rparr>"
        and kp: "k \<le> p" and o: "referenceOccurs part str p nm" by blast
      from only[OF kp o] show "r \<in> set (collectLineReferences part l str k)"
      proof
        assume "p = index \<and> nm = name"
        with r show ?thesis unfolding unfold by simp
      next
        assume "?e \<le> p"
        with r o have "r \<in> set (collectLineReferences part l str ?e)" unfolding IH by blast
        then show ?thesis unfolding unfold by simp
      qed
    qed
  qed
qed

lemma collectLineReferences_sorted:
  "sorted_wrt (\<lambda>a b. ref_end a \<le> ref_start b) (collectLineReferences part l str k)
   \<and> (\<forall>r \<in> set (collectLineReferences part l str k).
        k \<le> ref_start r \<and> ref_start r < ref_end r \<and> ref_line r = l)"
proof (induction part l str k rule: collectLineReferences.induct)
  case (1 part l str k)
  show ?case
  proof (cases "regexExec (LIST_REF_REGEX_with part) str k")
    case None
    then show ?thesis by (simp add: collectLineReferences.simps[of part l str k])
  next
    case (Some x)
    obtain index name where x: "x = (index, name)" by (cases x)
    note ex = Some[unfolded x]
    note E = regexExec_Some[OF ex]
    let ?e = "index + (length name + 4)"
    have unfold: "collectLineReferences part l str k =
        \<lparr>ref_name = name, ref_line = l, ref_start = index, ref_end = ?e\<rparr>
        # collectLineReferences part l str ?e"
      using ex by (simp add: collectLineReferences.simps[of part l str k])
    note IH = "1.IH"[OF Some x[symmetric]]
    show ?thesis unfolding unfold using IH E(1) by auto
  qed
qed

lemma collectLineReferences_mem:
  assumes "\<not> part CHR '']''" "\<not> part CHR ''[''"
  shows "r \<in> set (collectLineReferences part l str 0) \<longleftrightarrow>
           ref_line r = l \<and> referenceOccurs part str (ref_start r) (ref_name r)
           \<and> ref_end r = ref_start r + (length (ref_name r) + 4)"
  unfolding collectLineReferences_set[OF assms] by (cases r) auto

lemma collectListReferences_loop_mem:
  assumes "\<not> part CHR '']''" "\<not> part CHR ''[''"
  shows "r \<in> set (collectListReferences_loop part l0 doc) \<longleftrightarrow>
           l0 \<le> ref_line r \<and> ref_line r < l0 + length doc
           \<and> referenceOccurs part (doc ! (ref_line r - l0)) (ref_start r) (ref_name r)
           \<and> ref_end r = ref_start r + (length (ref_name r) + 4)"
proof (induction doc arbitrary: l0)
  case Nil
  show ?case by simp
next
  case (Cons str rest)
  show ?case
  proof (cases "ref_line r = l0")
    case True
    then show ?thesis
      by (simp add: collectLineReferences_mem[OF assms] Cons.IH)
  next
    case False
    then have "(l0 \<le> ref_line r) = (l0 + 1 \<le> ref_line r)" by auto
    moreover have "l0 + 1 \<le> ref_line r \<Longrightarrow>
        (str # rest) ! (ref_line r - l0) = rest ! (ref_line r - (l0 + 1))"
      by (simp add: nth_Cons')
    ultimately show ?thesis
      using False by (auto simp: collectLineReferences_mem[OF assms] Cons.IH)
  qed
qed

lemma collectListReferences_loop_sorted:
  "sorted_wrt (\<lambda>a b. ref_line a < ref_line b \<or> ref_line a = ref_line b \<and> ref_end a \<le> ref_start b)
     (collectListReferences_loop part l0 doc)
   \<and> (\<forall>r \<in> set (collectListReferences_loop part l0 doc). l0 \<le> ref_line r \<and> ref_start r < ref_end r)"
proof (induction doc arbitrary: l0)
  case Nil
  show ?case by simp
next
  case (Cons str rest)
  note L = collectLineReferences_sorted[of part l0 str 0]
  have "sorted_wrt (\<lambda>a b. ref_line a < ref_line b \<or> ref_line a = ref_line b \<and> ref_end a \<le> ref_start b)
          (collectLineReferences part l0 str 0)"
    using L by (auto intro: sorted_wrt_mono_rel[where P = "\<lambda>a b. ref_end a \<le> ref_start b"])
  moreover have "\<forall>a \<in> set (collectLineReferences part l0 str 0).
      \<forall>b \<in> set (collectListReferences_loop part (l0 + 1) rest). ref_line a < ref_line b"
    using L Cons.IH[of "l0 + 1"] by fastforce
  ultimately show ?case
    using L Cons.IH[of "l0 + 1"] by (auto simp: sorted_wrt_append)
qed

lemma sorted_wrt_distinct: "sorted_wrt R xs \<Longrightarrow> \<forall>x \<in> set xs. \<not> R x x \<Longrightarrow> distinct xs"
  by (induction xs) auto

lemma collectListReferences_loop_distinct: "distinct (collectListReferences_loop part l0 doc)"
proof -
  note S = collectListReferences_loop_sorted[of part l0 doc]
  show ?thesis
    by (rule sorted_wrt_distinct[where R = "\<lambda>a b. ref_line a < ref_line b \<or> ref_line a = ref_line b \<and> ref_end a \<le> ref_start b"])
       (use S in auto)
qed

lemma referenceOccurs_substring:
  "referenceOccurs part str p nm \<Longrightarrow> take (length nm + 4) (drop p str) = ''[['' @ nm @ '']]''"
proof -
  assume "referenceOccurs part str p nm"
  then obtain pre post where s: "str = pre @ (''[['' @ nm @ '']]'') @ post" and p: "length pre = p"
    unfolding referenceOccurs_def by auto
  have "length (''[['' @ nm @ '']]'') = length nm + 4" by simp
  then have "take (length nm + 4) ((''[['' @ nm @ '']]'') @ post) = ''[['' @ nm @ '']]''"
    by (metis append_eq_conv_conj)
  with s p show ?thesis by simp
qed

text \<open>
  Claim C1 (as amended). \<^verbatim>\<open>collectListReferences\<close> scans every line of the document and
  returns exactly one record for each occurrence of \<open>[[identifier]]\<close>: a record is in the result
  if and only if its line holds such an occurrence at its start column, and its end column is the
  start plus the length of \<open>[[name]]\<close>. The identifier starts with a letter or underscore; its
  later characters are letters, digits, underscore and hyphen in the full extension, and letters,
  digits and underscore only in the reduced \<^verbatim>\<open>src/extension.js\<close>. The text between the two
  columns is \<open>[[name]]\<close> exactly. Records come in document order and do not overlap, so two
  references to the same name are two records.
\<close>

theorem collectListReferences_one_record_per_occurrence:
  "(r \<in> set (collectListReferences document) \<longleftrightarrow>
      ref_line r < length document
      \<and> referenceOccurs identPart (document ! ref_line r) (ref_start r) (ref_name r)
      \<and> ref_end r = ref_start r + (length (ref_name r) + 4))
   \<and> (r \<in> set (collectListReferences_reduced document) \<longleftrightarrow>
      ref_line r < length document
      \<and> referenceOccurs isWordChar (document ! ref_line r) (ref_start r) (ref_name r)
      \<and> ref_end r = ref_start r + (length (ref_name r) + 4))
   \<and> (\<forall>q \<in> set (collectListReferences document) \<union> set (collectListReferences_reduced document).
        take (ref_end q - ref_start q) (drop (ref_start q) (document ! ref_line q))
          = ''[['' @ ref_name q @ '']]'')
   \<and> sorted_wrt (\<lambda>a b. ref_line a < ref_line b \<or> ref_line a = ref_line b \<and> ref_end a \<le> ref_start b)
        (collectListReferences document)
   \<and> sorted_wrt (\<lambda>a b. ref_line a < ref_line b \<or> ref_line a = ref_line b \<and> ref_end a \<le> ref_start b)
        (collectListReferences_reduced document)
   \<and> distinct (collectListReferences document)
   \<and> distinct (collectListReferences_reduced document)"
proof -
  note full = collectListReferences_loop_mem[of identPart _ 0 document, OF identPart_not_bracket]
  note reduced = collectListReferences_loop_mem[of isWordChar _ 0 document, OF isWordChar_not_bracket]
  have "\<forall>q \<in> set (collectListReferences document) \<union> set (collectListReferences_reduced document).
        take (ref_end q - ref_start q) (drop (ref_start q) (document ! ref_line q))
          = ''[['' @ ref_name q @ '']]''"
    unfolding collectListReferences_def collectListReferences_reduced_def
    using full reduced referenceOccurs_substring by fastforce
  then show ?thesis
    unfolding collectListReferences_def collectListReferences_reduced_def
    using full[of r] reduced[of r] collectListReferences_loop_sorted[of _ 0 document]
      collectListReferences_loop_distinct[of _ 0 document]
    by simp
qed

theorem collectListReferences_one_record_per_occurrence_witness:
  "collectListReferences [''[[a]] [[a]]'', ''<p>[[b-c]]</p>'']
     = [\<lparr>ref_name = ''a'', ref_line = 0, ref_start = 0, ref_end = 5\<rparr>,
        \<lparr>ref_name = ''a'', ref_line = 0, ref_start = 6, ref_end = 11\<rparr>,
        \<lparr>ref_name = ''b-c'', ref_line = 1, ref_start = 3, ref_end = 10\<rparr>]
   \<and> referenceOccurs identPart ''[[a]] [[a]]'' 6 ''a''"
proof -
  let ?doc = "[''[[a]] [[a]]'', ''<p>[[b-c]]</p>'']"
  have e: "collectListReferences ?doc
     = [\<lparr>ref_name = ''a'', ref_line = 0, ref_start = 0, ref_end = 5\<rparr>,
        \<lparr>ref_name = ''a'', ref_line = 0, ref_start = 6, ref_end = 11\<rparr>,
        \<lparr>ref_name = ''b-c'', ref_line = 1, ref_start = 3, ref_end = 10\<rparr>]"
    by code_simp
  then have "\<lparr>ref_name = ''a'', ref_line = 0, ref_start = 6, ref_end = 11\<rparr>
               \<in> set (collectListReferences ?doc)" by simp
  with collectListReferences_one_record_per_occurrence
         [of "\<lparr>ref_name = ''a'', ref_line = 0, ref_start = 6, ref_end = 11\<rparr>" ?doc]
  have "referenceOccurs identPart ''[[a]] [[a]]'' 6 ''a''" by simp
  with e show ?thesis by simp
qed

text \<open>
  The claim as stated fails on the reduced \<^verbatim>\<open>src/extension.js\<close>, whose pattern has no hyphen
  in the identifier class: \<open>[[a-b]]\<close> is an occurrence with hyphen, and no record is returned.
\<close>

theorem collectListReferences_reduced_hyphen_counterexample:
  "referenceOccurs identPart ''see [[a-b]]'' 4 ''a-b''
   \<and> collectListReferences_reduced [''see [[a-b]]''] = []"
proof -
  have "referenceOccurs identPart ''see [[a-b]]'' 4 ''a-b''"
    unfolding referenceOccurs_iff[of identPart, OF identPart_not_bracket(1)]
    by (simp add: startsWith_def identStart_def identPart_def isAlpha_def isDigit_def)
  moreover have "collectListReferences_reduced [''see [[a-b]]''] = []" by code_simp
  ultimately show ?thesis by simp
qed

section \<open>Properties of the single-equals rule\<close>

lemma indexOf_from_char:
  "indexOf_from pos s [c] =
     (if c \<in> set s then Some (pos + length (takeWhile (\<lambda>d. d \<noteq> c) s)) else None)"
  by (induction s arbitrary: pos) (auto simp: startsWith_def)

lemma indexOf_char:
  "indexOf s [c] = (if c \<in> set s then Some (length (takeWhile (\<lambda>d. d \<noteq> c) s)) else None)"
  by (simp add: indexOf_def indexOf_from_char)

lemma take_length_takeWhile: "take (length (takeWhile P s)) s = takeWhile P s"
  by (metis append_eq_conv_conj takeWhile_dropWhile_id)


lemma ex_from_split: "(\<exists>j \<ge> i. P j) \<longleftrightarrow> P (i::nat) \<or> (\<exists>j \<ge> i + 1. P j)"
proof
  assume "\<exists>j \<ge> i. P j"
  then obtain j where j: "i \<le> j" "P j" by blast
  show "P i \<or> (\<exists>j \<ge> i + 1. P j)"
  proof (cases "j = i")
    case True
    with j show ?thesis by simp
  next
    case False
    with j have "i + 1 \<le> j" by simp
    with j show ?thesis by blast
  qed
next
  assume "P i \<or> (\<exists>j \<ge> i + 1. P j)"
  then show "\<exists>j \<ge> i. P j"
  proof
    assume "P i" then show ?thesis by blast
  next
    assume "\<exists>j \<ge> i + 1. P j"
    then obtain j where "i + 1 \<le> j" "P j" by blast
    then have "i \<le> j \<and> P j" by simp
    then show ?thesis by blast
  qed
qed

lemma hasSingleEquals_from_iff:
  "hasSingleEquals_from cond i \<longleftrightarrow> (\<exists>j \<ge> i. singleEqualsAt cond j)"
proof (induction cond i rule: hasSingleEquals_from.induct)
  case (1 cond i)
  show ?case
  proof (cases "i < length cond")
    case False
    then have "\<not> hasSingleEquals_from cond i"
      by (simp add: hasSingleEquals_from.simps[of cond i])
    moreover have "\<not> (\<exists>j \<ge> i. singleEqualsAt cond j)"
      using False by (auto simp: singleEqualsAt_def)
    ultimately show ?thesis by simp
  next
    case True
    define prev where "prev = (if i = 0 then None else Some (cond ! (i - 1)))"
    define nxt where "nxt = (if i + 1 < length cond then Some (cond ! (i + 1)) else None)"
    let ?H = "hasSingleEquals_from cond (i + 1)"
    have eqn: "hasSingleEquals_from cond i =
        (if cond ! i \<noteq> CHR ''='' then ?H
         else if prev = Some CHR ''='' \<or> nxt = Some CHR ''='' then ?H
         else if prev = Some CHR ''!'' \<or> prev = Some CHR ''>'' \<or> prev = Some CHR ''<'' then ?H
         else if nxt = Some CHR ''>'' then ?H
         else True)"
      by (subst hasSingleEquals_from.simps) (simp only: True if_True Let_def prev_def nxt_def)
    have pv: "prev = Some c \<longleftrightarrow> i \<noteq> 0 \<and> cond ! (i - 1) = c" for c
      unfolding prev_def by simp
    have nx: "nxt = Some c \<longleftrightarrow> i + 1 \<noteq> length cond \<and> cond ! (i + 1) = c" for c
      unfolding nxt_def using True by auto
    have sea: "singleEqualsAt cond i \<longleftrightarrow>
        cond ! i = CHR ''='' \<and> prev \<noteq> Some CHR ''='' \<and> prev \<noteq> Some CHR ''!''
        \<and> prev \<noteq> Some CHR ''>'' \<and> prev \<noteq> Some CHR ''<''
        \<and> nxt \<noteq> Some CHR ''='' \<and> nxt \<noteq> Some CHR ''>''"
      unfolding singleEqualsAt_def pv nx using True by blast
    show ?thesis
    proof (cases "singleEqualsAt cond i")
      case here: True
      then have "hasSingleEquals_from cond i"
        unfolding eqn sea by simp
      with here show ?thesis by blast
    next
      case nothere: False
      then have step: "hasSingleEquals_from cond i = ?H"
        unfolding eqn sea by auto
      from nothere consider (a) "cond ! i \<noteq> CHR ''=''"
        | (b) "\<not> cond ! i \<noteq> CHR ''=''" "prev = Some CHR ''='' \<or> nxt = Some CHR ''=''"
        | (c) "\<not> cond ! i \<noteq> CHR ''=''" "\<not> (prev = Some CHR ''='' \<or> nxt = Some CHR ''='')"
              "prev = Some CHR ''!'' \<or> prev = Some CHR ''>'' \<or> prev = Some CHR ''<''"
        | (d) "\<not> cond ! i \<noteq> CHR ''=''" "\<not> (prev = Some CHR ''='' \<or> nxt = Some CHR ''='')"
              "\<not> (prev = Some CHR ''!'' \<or> prev = Some CHR ''>'' \<or> prev = Some CHR ''<'')"
              "nxt = Some CHR ''>''"
        unfolding sea by blast
      then have IH: "?H \<longleftrightarrow> (\<exists>j \<ge> i + 1. singleEqualsAt cond j)"
      proof cases
        case a
        from "1.IH"(1)[OF True a] show ?thesis .
      next
        case b
        from "1.IH"(2)[OF True b(1) prev_def nxt_def b(2)] show ?thesis .
      next
        case c
        from "1.IH"(3)[OF True c(1) prev_def nxt_def c(2) c(3)] show ?thesis .
      next
        case d
        from "1.IH"(4)[OF True d(1) prev_def nxt_def d(2) d(3) d(4)] show ?thesis .
      qed
      show ?thesis
        unfolding step IH ex_from_split[of i "singleEqualsAt cond"] using nothere by simp
    qed
  qed
qed

lemma hasSingleEquals_iff: "hasSingleEquals cond \<longleftrightarrow> (\<exists>i. singleEqualsAt cond i)"
  by (simp add: hasSingleEquals_def hasSingleEquals_from_iff)

lemma bracketRegex_iff:
  "bracketRegex s = Some content \<longleftrightarrow>
     content \<noteq> [] \<and> CHR '']'' \<notin> set content \<and> (\<exists>post. s = ''['' @ content @ '']'' @ post)"
proof
  assume m: "bracketRegex s = Some content"
  then obtain c cs where s: "s = c # cs" by (cases s) auto
  let ?P = "\<lambda>d. d \<noteq> CHR '']''"
  from m s have c: "c = CHR ''[''" and t: "takeWhile ?P cs \<noteq> []" and d: "dropWhile ?P cs \<noteq> []"
    and content: "content = takeWhile ?P cs"
    by (auto split: if_splits)
  from d have "\<not> ?P (hd (dropWhile ?P cs))" by (rule hd_dropWhile)
  with d obtain post where dp: "dropWhile ?P cs = CHR '']'' # post"
    by (cases "dropWhile ?P cs") auto
  have "cs = takeWhile ?P cs @ dropWhile ?P cs" by simp
  with dp content have "cs = content @ '']'' @ post" by simp
  with s c have "s = ''['' @ content @ '']'' @ post" by simp
  moreover have "CHR '']'' \<notin> set content"
    unfolding content using set_takeWhileD by fastforce
  ultimately show "content \<noteq> [] \<and> CHR '']'' \<notin> set content \<and> (\<exists>post. s = ''['' @ content @ '']'' @ post)"
    using t content by simp
next
  assume "content \<noteq> [] \<and> CHR '']'' \<notin> set content \<and> (\<exists>post. s = ''['' @ content @ '']'' @ post)"
  then obtain post where ne: "content \<noteq> []" and nb: "CHR '']'' \<notin> set content"
    and s: "s = ''['' @ content @ '']'' @ post" by blast
  let ?P = "\<lambda>d. d \<noteq> CHR '']''"
  from nb have all: "\<forall>d \<in> set content. ?P d" by blast
  have tw: "takeWhile ?P (content @ '']'' @ post) = content"
    using all by (simp add: takeWhile_append2)
  have dw: "dropWhile ?P (content @ '']'' @ post) = '']'' @ post"
    using all by (simp add: dropWhile_append2)
  from s have "s = CHR ''['' # (content @ '']'' @ post)" by simp
  then show "bracketRegex s = Some content"
    using tw dw ne by simp
qed

lemma bracketSpanAt_iff:
  "bracketSpanAt str p content \<longleftrightarrow> p \<le> length str \<and> bracketRegex (drop p str) = Some content"
proof -
  have "(\<exists>pre post. str = pre @ ''['' @ content @ '']'' @ post \<and> length pre = p)
        \<longleftrightarrow> p \<le> length str \<and> (\<exists>post. drop p str = ''['' @ content @ '']'' @ post)"
  proof
    assume "\<exists>pre post. str = pre @ ''['' @ content @ '']'' @ post \<and> length pre = p"
    then obtain pre post where "str = pre @ ''['' @ content @ '']'' @ post" "length pre = p" by blast
    then show "p \<le> length str \<and> (\<exists>post. drop p str = ''['' @ content @ '']'' @ post)" by auto
  next
    assume a: "p \<le> length str \<and> (\<exists>post. drop p str = ''['' @ content @ '']'' @ post)"
    then obtain post where "drop p str = ''['' @ content @ '']'' @ post" by blast
    then have "str = take p str @ ''['' @ content @ '']'' @ post"
      by (metis append_take_drop_id)
    moreover have "length (take p str) = p" using a by simp
    ultimately show "\<exists>pre post. str = pre @ ''['' @ content @ '']'' @ post \<and> length pre = p" by blast
  qed
  then show ?thesis
    unfolding bracketSpanAt_def bracketRegex_iff by blast
qed

lemma bracketSpans_from_spec:
  "(\<forall>(i, c) \<in> set (bracketSpans_from str k). k \<le> i \<and> bracketSpanAt str i c)
   \<and> sorted_wrt (\<lambda>(i, c) (j, d). i + (length c + 2) \<le> j) (bracketSpans_from str k)"
proof (induction str k rule: bracketSpans_from.induct)
  case (1 str k)
  show ?case
  proof (cases "regexExec bracketRegex str k")
    case None
    then show ?thesis by (simp add: bracketSpans_from.simps[of str k])
  next
    case (Some x)
    obtain index content where x: "x = (index, content)" by (cases x)
    note ex = Some[unfolded x]
    note E = regexExec_Some[OF ex]
    let ?e = "index + (length content + 2)"
    have unfold: "bracketSpans_from str k = (index, content) # bracketSpans_from str ?e"
      using ex by (simp add: bracketSpans_from.simps[of str k])
    note IH = "1.IH"[OF Some x[symmetric]]
    have here: "bracketSpanAt str index content"
      using E(2,3) by (simp add: bracketSpanAt_iff)
    show ?thesis unfolding unfold using IH E(1) here by fastforce
  qed
qed

lemma ternary_flag:
  "(case indexOf content ''?'' of
      None \<Rightarrow> []
    | Some questionIndex \<Rightarrow>
        (case indexOf content '':'' of
           None \<Rightarrow> []
         | Some colonIndex \<Rightarrow> if hasSingleEquals (take questionIndex content) then [w] else []))
   = (if ternaryWithSingleEquals content then [w] else [])"
  unfolding ternaryWithSingleEquals_def indexOf_char
  by (simp add: take_length_takeWhile hasSingleEquals_iff)

lemma findIfElseSingleEquals_from_spans:
  "findIfElseSingleEquals_from str k =
     map (\<lambda>(i, c). \<lparr>span_start = i, span_end = i + (length c + 2)\<rparr>)
       (filter (\<lambda>(i, c). ternaryWithSingleEquals c) (bracketSpans_from str k))"
proof (induction str k rule: findIfElseSingleEquals_from.induct)
  case (1 str k)
  show ?case
  proof (cases "regexExec bracketRegex str k")
    case None
    then show ?thesis
      by (simp add: bracketSpans_from.simps[of str k] findIfElseSingleEquals_from.simps[of str k])
  next
    case (Some x)
    obtain index content where x: "x = (index, content)" by (cases x)
    note ex = Some[unfolded x]
    let ?e = "index + (length content + 2)"
    have u1: "bracketSpans_from str k = (index, content) # bracketSpans_from str ?e"
      using ex by (simp add: bracketSpans_from.simps[of str k])
    have u2: "findIfElseSingleEquals_from str k =
        (if ternaryWithSingleEquals content then [\<lparr>span_start = index, span_end = ?e\<rparr>] else [])
        @ findIfElseSingleEquals_from str ?e"
      using ex by (simp add: findIfElseSingleEquals_from.simps[of str k] ternary_flag)
    note IH = "1.IH"[OF Some x[symmetric]]
    show ?thesis unfolding u1 u2 IH by simp
  qed
qed

text \<open>
  Claim C4. \<^verbatim>\<open>findIfElseSingleEquals\<close> visits the bracketed spans of the text from left to right
  (each is \<open>[\<close>, a non-empty content without \<open>]\<close>, and \<open>]\<close>; the spans do not overlap) and emits
  one finding, covering the whole span, for exactly those spans whose content contains \<open>?\<close> and
  \<open>:\<close> and whose part before the first \<open>?\<close> holds an \<open>=\<close> that is not preceded by \<open>=\<close>, \<open>!\<close>,
  \<open>>\<close>, \<open><\<close> and not followed by \<open>=\<close> or \<open>>\<close>; \<^verbatim>\<open>hasSingleEquals\<close> decides the latter.
  The four examples of the specification evaluate as stated.
\<close>

theorem findIfElseSingleEquals_one_finding_per_flagged_span:
  \<open>findIfElseSingleEquals str =
     map (\<lambda>(i, c). \<lparr>span_start = i, span_end = i + (length c + 2)\<rparr>)
       (filter (\<lambda>(i, c). ternaryWithSingleEquals c) (bracketSpans_from str 0))
   \<and> (\<forall>(i, c) \<in> set (bracketSpans_from str 0). bracketSpanAt str i c)
   \<and> sorted_wrt (\<lambda>(i, c) (j, d). i + (length c + 2) \<le> j) (bracketSpans_from str 0)
   \<and> (hasSingleEquals cond \<longleftrightarrow> (\<exists>i. singleEqualsAt cond i))
   \<and> findIfElseSingleEquals ''[x = 1 ? "a" : "b"]'' = [\<lparr>span_start = 0, span_end = 19\<rparr>]
   \<and> findIfElseSingleEquals ''[x == 1 ? "a" : "b"]'' = []
   \<and> findIfElseSingleEquals ''[x != 1 ? "a" : "b"]'' = []
   \<and> findIfElseSingleEquals ''[fn() => x ? "a" : "b"]'' = []\<close>
proof -
  have \<open>findIfElseSingleEquals ''[x = 1 ? "a" : "b"]'' = [\<lparr>span_start = 0, span_end = 19\<rparr>]\<close>
    by code_simp
  moreover have \<open>findIfElseSingleEquals ''[x == 1 ? "a" : "b"]'' = []\<close>
    by code_simp
  moreover have \<open>findIfElseSingleEquals ''[x != 1 ? "a" : "b"]'' = []\<close>
    by code_simp
  moreover have \<open>findIfElseSingleEquals ''[fn() => x ? "a" : "b"]'' = []\<close>
    by code_simp
  moreover have "\<forall>(i, c) \<in> set (bracketSpans_from str 0). bracketSpanAt str i c"
    using bracketSpans_from_spec[of str 0] by fastforce
  ultimately show ?thesis
    unfolding findIfElseSingleEquals_def
    using findIfElseSingleEquals_from_spans[of str 0] bracketSpans_from_spec[of str 0]
      hasSingleEquals_iff[of cond]
    by simp
qed

theorem findIfElseSingleEquals_one_finding_per_flagged_span_witness:
  "bracketSpans_from ''a [y=2] [x=1?b:c]'' 0 = [(2, ''y=2''), (8, ''x=1?b:c'')]
   \<and> bracketSpanAt ''a [y=2] [x=1?b:c]'' 8 ''x=1?b:c''
   \<and> ternaryWithSingleEquals ''x=1?b:c''
   \<and> findIfElseSingleEquals ''a [y=2] [x=1?b:c]'' = [\<lparr>span_start = 8, span_end = 17\<rparr>]"
proof -
  let ?t = "''a [y=2] [x=1?b:c]''"
  have spans: "bracketSpans_from ?t 0 = [(2, ''y=2''), (8, ''x=1?b:c'')]"
    by code_simp
  have found: "findIfElseSingleEquals ?t = [\<lparr>span_start = 8, span_end = 17\<rparr>]"
    by code_simp
  note T = findIfElseSingleEquals_one_finding_per_flagged_span[of ?t "''x=1''"]
  from T spans have at: "bracketSpanAt ?t 8 ''x=1?b:c''" by simp
  from T spans found have "\<not> ternaryWithSingleEquals ''y=2''"
    by (auto split: if_splits)
  from T spans found have "ternaryWithSingleEquals ''x=1?b:c''"
    by (auto split: if_splits)
  with spans at found show ?thesis by simp
qed

section \<open>Properties of the batch analyzer\<close>

lemma includesStr_char: "includesStr s [c] \<longleftrightarrow> c \<in> set s"
  by (simp add: includesStr_def indexOf_char)

lemma TAB_neq_SPACE: "TAB \<noteq> SPACE"
  by (simp add: TAB_def SPACE_def)

lemma leadingIndent_chars: "c \<in> set (leadingIndent line) \<Longrightarrow> c = TAB \<or> c = SPACE"
  unfolding leadingIndent_def by (auto dest: set_takeWhileD)

lemma count_non_tab:
  "\<forall>c \<in> set s. c = TAB \<or> c = SPACE \<Longrightarrow> length (filter (\<lambda>c. c \<noteq> TAB) s) = count_list s SPACE"
  using TAB_neq_SPACE by (induction s) auto

lemma spaceCount_odd:
  "length (filter (\<lambda>c. c \<noteq> TAB) (leadingIndent line)) mod 2 = Suc 0 \<longleftrightarrow> oddIndent line"
  "length (filter (\<lambda>c. c \<noteq> TAB) (leadingIndent line)) mod 2 = 0 \<longleftrightarrow> \<not> oddIndent line"
proof -
  have "length (filter (\<lambda>c. c \<noteq> TAB) (leadingIndent line)) = count_list (leadingIndent line) SPACE"
    using count_non_tab[of "leadingIndent line"] leadingIndent_chars by blast
  then show "length (filter (\<lambda>c. c \<noteq> TAB) (leadingIndent line)) mod 2 = Suc 0 \<longleftrightarrow> oddIndent line"
    "length (filter (\<lambda>c. c \<noteq> TAB) (leadingIndent line)) mod 2 = 0 \<longleftrightarrow> \<not> oddIndent line"
    unfolding oddIndent_def by presburger+
qed

lemma analyzePerchance_line_skip:
  "\<not> listLine line \<Longrightarrow> analyzePerchance_line i line st = st"
  unfolding analyzePerchance_line_def listLine_def by (auto simp: Let_def)

lemma analyzePerchance_line_warnings:
  "b_warnings (analyzePerchance_line i line st) =
     b_warnings st
     @ (case batchTopName line of
          None \<Rightarrow> []
        | Some n \<Rightarrow> if b_listNameIndex st n \<noteq> None then [wDup i n] else [])
     @ (if indentedLine line \<and> mixedIndent line then [wMixed i] else [])
     @ (if indentedLine line \<and> oddIndent line then [wOdd i] else [])
     @ (if listLine line
        then map (\<lambda>s. wSingle i)
               (findIfElseSingleEquals (stripComment (drop (length (leadingIndent line)) line)))
        else [])"
proof (cases "listLine line")
  case False
  then show ?thesis
    by (simp add: analyzePerchance_line_skip batchTopName_def indentedLine_def topLevelLine_def)
next
  case True
  then have t: "trim line \<noteq> []" "\<not> startsWith (trim line) ''//''"
    by (simp_all add: listLine_def)
  show ?thesis
  proof (cases "leadingIndent line = []")
    case top: True
    then show ?thesis
      using True t
      unfolding analyzePerchance_line_def batchTopName_def indentedLine_def topLevelLine_def
      by (auto simp: Let_def pushWarning_def wDup_def wSingle_def split: option.splits)
  next
    case ind: False
    then show ?thesis
      using True t
      unfolding analyzePerchance_line_def batchTopName_def indentedLine_def topLevelLine_def
        mixedIndent_def
      by (simp add: Let_def pushWarning_def wMixed_def wOdd_def wSingle_def includesStr_char
          spaceCount_odd)
  qed
qed

lemma analyzePerchance_line_index:
  "b_listNameIndex (analyzePerchance_line i line st) =
     (case batchTopName line of
        None \<Rightarrow> b_listNameIndex st
      | Some n \<Rightarrow>
          if b_listNameIndex st n \<noteq> None then b_listNameIndex st
          else (b_listNameIndex st)(n \<mapsto> i))"
proof (cases "listLine line")
  case False
  then show ?thesis
    by (simp add: analyzePerchance_line_skip batchTopName_def topLevelLine_def)
next
  case True
  then have t: "trim line \<noteq> []" "\<not> startsWith (trim line) ''//''"
    by (simp_all add: listLine_def)
  show ?thesis
    using True t
    unfolding analyzePerchance_line_def batchTopName_def topLevelLine_def
    by (cases "leadingIndent line = []") (auto simp: Let_def pushWarning_def split: option.splits)
qed

lemma emitted_generic:
  fixes g :: "nat \<Rightarrow> 'w list"
  assumes "filter P (g 0) = []"
    and "\<And>k. k < N \<Longrightarrow> filter P (g (Suc k)) = filter P (g k) @ (if c k then [W k] else [])"
    and "k \<le> N"
  shows "filter P (g k) = map W (filter c [0..<k])"
  using assms(3)
proof (induction k)
  case 0
  show ?case using assms(1) by simp
next
  case (Suc k)
  then have "k < N" by simp
  from assms(2)[OF this] Suc show ?case by simp
qed

lemma recorded_generic:
  fixes f :: "nat \<Rightarrow> (string \<rightharpoonup> nat)"
  assumes f0: "f 0 = Map.empty"
    and fS: "\<And>k. k < N \<Longrightarrow>
          f (Suc k) = (case nameOf (lines ! k) of
                         None \<Rightarrow> f k
                       | Some n \<Rightarrow> if f k n \<noteq> None then f k else (f k)(n \<mapsto> k))"
    and "k \<le> N"
  shows "(f k n \<noteq> None \<longleftrightarrow> (\<exists>j < k. nameOf (lines ! j) = Some n))
       \<and> (f k n = Some j \<longleftrightarrow>
            j < k \<and> nameOf (lines ! j) = Some n \<and> \<not> alreadyRecorded nameOf lines j)"
  using assms(3)
proof (induction k arbitrary: n j)
  case 0
  show ?case using f0 by simp
next
  case (Suc k)
  then have kN: "k < N" by simp
  note IH = Suc.IH[OF less_imp_le[OF kN]]
  have dom: "f k m \<noteq> None \<longleftrightarrow> (\<exists>j < k. nameOf (lines ! j) = Some m)" for m
    using IH[of m] by (rule conjunct1)
  have first: "f k m = Some i \<longleftrightarrow>
      i < k \<and> nameOf (lines ! i) = Some m \<and> \<not> alreadyRecorded nameOf lines i" for m i
    using IH[of m i] by (rule conjunct2)
  have rec_k: "alreadyRecorded nameOf lines k \<longleftrightarrow>
      (\<exists>m. nameOf (lines ! k) = Some m \<and> f k m \<noteq> None)"
    unfolding alreadyRecorded_def dom by auto
  show ?case
  proof (cases "nameOf (lines ! k)")
    case None
    then have step: "f (Suc k) = f k" using fS[OF kN] by simp
    have "(\<exists>j < Suc k. nameOf (lines ! j) = Some n) \<longleftrightarrow> (\<exists>j < k. nameOf (lines ! j) = Some n)"
      using None by (metis less_Suc_eq option.distinct(1))
    moreover have "(j < Suc k \<and> nameOf (lines ! j) = Some n \<and> \<not> alreadyRecorded nameOf lines j)
        \<longleftrightarrow> (j < k \<and> nameOf (lines ! j) = Some n \<and> \<not> alreadyRecorded nameOf lines j)"
      using None by (metis less_Suc_eq option.distinct(1))
    ultimately show ?thesis unfolding step dom first by simp
  next
    case (Some m)
    show ?thesis
    proof (cases "f k m \<noteq> None")
      case True
      then have step: "f (Suc k) = f k" using fS[OF kN] Some by simp
      from True have rk: "alreadyRecorded nameOf lines k" using rec_k Some by simp
      have "(\<exists>j < Suc k. nameOf (lines ! j) = Some n) \<longleftrightarrow> (\<exists>j < k. nameOf (lines ! j) = Some n)"
        using Some True dom[of m] by (metis less_Suc_eq option.inject)
      moreover have "(j < Suc k \<and> nameOf (lines ! j) = Some n \<and> \<not> alreadyRecorded nameOf lines j)
          \<longleftrightarrow> (j < k \<and> nameOf (lines ! j) = Some n \<and> \<not> alreadyRecorded nameOf lines j)"
        using rk by (metis less_Suc_eq)
      ultimately show ?thesis unfolding step dom first by simp
    next
      case False
      then have step: "f (Suc k) = (f k)(m \<mapsto> k)" using fS[OF kN] Some by simp
      from False have nrk: "\<not> alreadyRecorded nameOf lines k" using rec_k Some by simp
      from False have none_before: "\<And>i. i < k \<Longrightarrow> nameOf (lines ! i) \<noteq> Some m"
        using dom[of m] by blast
      show ?thesis
      proof (cases "n = m")
        case True
        have a: "(\<exists>j < Suc k. nameOf (lines ! j) = Some n)" using Some True by blast
        have b: "(j < Suc k \<and> nameOf (lines ! j) = Some n \<and> \<not> alreadyRecorded nameOf lines j)
            \<longleftrightarrow> j = k"
          using Some True nrk none_before by (metis less_Suc_eq)
        show ?thesis unfolding step using a b True by auto
      next
        case ne: False
        have "(\<exists>j < Suc k. nameOf (lines ! j) = Some n) \<longleftrightarrow> (\<exists>j < k. nameOf (lines ! j) = Some n)"
          using Some ne by (metis less_Suc_eq option.inject)
        moreover have "(j < Suc k \<and> nameOf (lines ! j) = Some n \<and> \<not> alreadyRecorded nameOf lines j)
            \<longleftrightarrow> (j < k \<and> nameOf (lines ! j) = Some n \<and> \<not> alreadyRecorded nameOf lines j)"
          using Some ne by (metis less_Suc_eq option.inject)
        ultimately show ?thesis unfolding step using ne dom[of n] first[of n j] by simp
      qed
    qed
  qed
qed

lemma analyzePerchance_loop_snoc:
  "analyzePerchance_loop k (xs @ [x]) st =
     analyzePerchance_line (k + length xs) x (analyzePerchance_loop k xs st)"
  by (induction xs arbitrary: k st) simp_all

lemma batchAfter_0: "batchAfter lines 0 = \<lparr>b_warnings = [], b_listNameIndex = Map.empty\<rparr>"
  by (simp add: batchAfter_def)

lemma batchAfter_Suc:
  "k < length lines \<Longrightarrow>
     batchAfter lines (Suc k) = analyzePerchance_line k (lines ! k) (batchAfter lines k)"
  unfolding batchAfter_def
  by (simp add: take_Suc_conv_app_nth analyzePerchance_loop_snoc)

lemma batch_recorded:
  assumes "k \<le> length lines"
  shows "(b_listNameIndex (batchAfter lines k) n \<noteq> None
            \<longleftrightarrow> (\<exists>j < k. batchTopName (lines ! j) = Some n))
       \<and> (b_listNameIndex (batchAfter lines k) n = Some j \<longleftrightarrow>
            j < k \<and> batchTopName (lines ! j) = Some n \<and> \<not> alreadyRecorded batchTopName lines j)"
proof (rule recorded_generic[where f = "\<lambda>k. b_listNameIndex (batchAfter lines k)" and N = "length lines"])
  show "b_listNameIndex (batchAfter lines 0) = Map.empty" by (simp add: batchAfter_0)
  show "k \<le> length lines" by (rule assms)
  fix k assume "k < length lines"
  then show "b_listNameIndex (batchAfter lines (Suc k)) =
      (case batchTopName (lines ! k) of
         None \<Rightarrow> b_listNameIndex (batchAfter lines k)
       | Some n \<Rightarrow>
           if b_listNameIndex (batchAfter lines k) n \<noteq> None
           then b_listNameIndex (batchAfter lines k)
           else (b_listNameIndex (batchAfter lines k))(n \<mapsto> k))"
    by (simp add: batchAfter_Suc analyzePerchance_line_index)
qed

lemma batch_duplicates:
  assumes "k \<le> length lines"
  shows "filter (\<lambda>w. w_code w = ''duplicate-list'') (b_warnings (batchAfter lines k)) =
           map (\<lambda>i. wDup i (nameOr (batchTopName (lines ! i))))
             (filter (alreadyRecorded batchTopName lines) [0..<k])"
proof (rule emitted_generic[where N = "length lines"])
  show "filter (\<lambda>w. w_code w = ''duplicate-list'') (b_warnings (batchAfter lines 0)) = []"
    by (simp add: batchAfter_0)
  show "k \<le> length lines" by (rule assms)
  fix k assume k: "k < length lines"
  note R = batch_recorded[of k lines, OF less_imp_le[OF k]]
  have rec_k: "alreadyRecorded batchTopName lines k \<longleftrightarrow>
      (\<exists>m. batchTopName (lines ! k) = Some m \<and> b_listNameIndex (batchAfter lines k) m \<noteq> None)"
    unfolding alreadyRecorded_def using R by (auto simp del: not_None_eq)
  show "filter (\<lambda>w. w_code w = ''duplicate-list'') (b_warnings (batchAfter lines (Suc k))) =
      filter (\<lambda>w. w_code w = ''duplicate-list'') (b_warnings (batchAfter lines k))
      @ (if alreadyRecorded batchTopName lines k
         then [wDup k (nameOr (batchTopName (lines ! k)))] else [])"
    unfolding batchAfter_Suc[OF k] analyzePerchance_line_warnings rec_k
    by (auto simp: wDup_def wMixed_def wOdd_def wSingle_def nameOr_def split: option.splits)
qed

lemma batch_mixed:
  assumes "k \<le> length lines"
  shows "filter (\<lambda>w. w_code w = ''mixed-indent'') (b_warnings (batchAfter lines k)) =
           map wMixed (filter (\<lambda>i. indentedLine (lines ! i) \<and> mixedIndent (lines ! i)) [0..<k])"
proof (rule emitted_generic[where N = "length lines"])
  show "filter (\<lambda>w. w_code w = ''mixed-indent'') (b_warnings (batchAfter lines 0)) = []"
    by (simp add: batchAfter_0)
  show "k \<le> length lines" by (rule assms)
  fix k assume k: "k < length lines"
  show "filter (\<lambda>w. w_code w = ''mixed-indent'') (b_warnings (batchAfter lines (Suc k))) =
      filter (\<lambda>w. w_code w = ''mixed-indent'') (b_warnings (batchAfter lines k))
      @ (if indentedLine (lines ! k) \<and> mixedIndent (lines ! k) then [wMixed k] else [])"
    unfolding batchAfter_Suc[OF k] analyzePerchance_line_warnings
    by (auto simp: wDup_def wMixed_def wOdd_def wSingle_def split: option.splits)
qed

lemma batch_odd:
  assumes "k \<le> length lines"
  shows "filter (\<lambda>w. w_code w = ''odd-indent'') (b_warnings (batchAfter lines k)) =
           map wOdd (filter (\<lambda>i. indentedLine (lines ! i) \<and> oddIndent (lines ! i)) [0..<k])"
proof (rule emitted_generic[where N = "length lines"])
  show "filter (\<lambda>w. w_code w = ''odd-indent'') (b_warnings (batchAfter lines 0)) = []"
    by (simp add: batchAfter_0)
  show "k \<le> length lines" by (rule assms)
  fix k assume k: "k < length lines"
  show "filter (\<lambda>w. w_code w = ''odd-indent'') (b_warnings (batchAfter lines (Suc k))) =
      filter (\<lambda>w. w_code w = ''odd-indent'') (b_warnings (batchAfter lines k))
      @ (if indentedLine (lines ! k) \<and> oddIndent (lines ! k) then [wOdd k] else [])"
    unfolding batchAfter_Suc[OF k] analyzePerchance_line_warnings
    by (auto simp: wDup_def wMixed_def wOdd_def wSingle_def split: option.splits)
qed

lemma batch_no_list_after_html:
  assumes "k \<le> length lines"
  shows "filter (\<lambda>w. w_code w = ''list-after-html'') (b_warnings (batchAfter lines k)) = []"
proof -
  have "filter (\<lambda>w. w_code w = ''list-after-html'') (b_warnings (batchAfter lines k)) =
           map wMixed (filter (\<lambda>i. False) [0..<k])"
  proof (rule emitted_generic[where N = "length lines"])
    show "filter (\<lambda>w. w_code w = ''list-after-html'') (b_warnings (batchAfter lines 0)) = []"
      by (simp add: batchAfter_0)
    show "k \<le> length lines" by (rule assms)
    fix k assume k: "k < length lines"
    show "filter (\<lambda>w. w_code w = ''list-after-html'') (b_warnings (batchAfter lines (Suc k))) =
        filter (\<lambda>w. w_code w = ''list-after-html'') (b_warnings (batchAfter lines k))
        @ (if False then [wMixed k] else [])"
      unfolding batchAfter_Suc[OF k] analyzePerchance_line_warnings
      by (auto simp: wDup_def wMixed_def wOdd_def wSingle_def split: option.splits)
  qed
  then show ?thesis by simp
qed

lemma listAfterHtml_loop_first:
  "listAfterHtml_loop k ls =
     map wListAfterHtml
       (take 1 (filter (\<lambda>i. listHeaderAfterHtml (ls ! (i - k))) [k..<k + length ls]))"
proof (induction ls arbitrary: k)
  case Nil
  show ?case by simp
next
  case (Cons l rest)
  have upt: "[k..<k + length (l # rest)] = k # [Suc k..<Suc k + length rest]"
    by (subst upt_rec) simp
  have shift: "filter (\<lambda>i. listHeaderAfterHtml ((l # rest) ! (i - k))) [Suc k..<Suc k + length rest]
      = filter (\<lambda>i. listHeaderAfterHtml (rest ! (i - Suc k))) [Suc k..<Suc k + length rest]"
    by (rule filter_cong) (auto simp: nth_Cons')
  show ?case
  proof (cases "listHeaderAfterHtml l")
    case True
    then show ?thesis
      unfolding upt by (simp add: listHeaderAfterHtml_def Let_def wListAfterHtml_def)
  next
    case False
    then have "listAfterHtml_loop k (l # rest) = listAfterHtml_loop (Suc k) rest"
      by (auto simp: listHeaderAfterHtml_def Let_def)
    then show ?thesis
      unfolding upt using False Cons.IH[of "Suc k"] shift by simp
  qed
qed

lemma findHtmlStart_le: "findHtmlStart lines \<le> length lines"
proof -
  have "lines = [] @ lines" "0 = length ([]::string list)" "length lines = length lines"
    "False \<longleftrightarrow> 0 < (0::nat) \<and> trim (lines ! (0 - 1)) = []" by simp_all
  from findHtmlStart_loop_spec[OF this] show ?thesis by (simp add: findHtmlStart_def)
qed

lemma listAfterHtml_lines:
  "listAfterHtml_loop (findHtmlStart lines) (drop (findHtmlStart lines) lines) =
     map wListAfterHtml
       (take 1 (filter (\<lambda>i. listHeaderAfterHtml (lines ! i)) [findHtmlStart lines..<length lines]))"
proof -
  let ?h = "findHtmlStart lines"
  have len: "?h + length (drop ?h lines) = length lines"
    using findHtmlStart_le[of lines] by simp
  have "filter (\<lambda>i. listHeaderAfterHtml (drop ?h lines ! (i - ?h))) [?h..<length lines]
      = filter (\<lambda>i. listHeaderAfterHtml (lines ! i)) [?h..<length lines]"
    by (rule filter_cong) (auto simp: findHtmlStart_le)
  then show ?thesis
    unfolding listAfterHtml_loop_first len by simp
qed

lemma analyzePerchance_state_after:
  "analyzePerchance_state lines = batchAfter lines (findHtmlStart lines)"
  by (simp add: analyzePerchance_state_def batchAfter_def)

lemma filter_take_one: "filter P (map f (take 1 xs)) = (if xs \<noteq> [] \<and> P (f (hd xs)) then [f (hd xs)] else [])"
  by (cases xs) auto

text \<open>
  Claim C10. The batch analyzer emits at most one finding with code \<open>list-after-html\<close>: at the
  first line at or after the markup boundary that is not blank, does not start with \<open><!--\<close>
  after trim and has the shape of a list header (block header, shorthand, dollar shorthand or
  function header); no line after it is examined, and there is no such finding when there is no
  such line.
\<close>

theorem analyzePerchance_list_after_html_first_only:
  "filter (\<lambda>w. w_code w = ''list-after-html'') (analyzePerchance_lines lines) =
     map (\<lambda>i. \<lparr>w_line = i + 1, w_code = ''list-after-html'',
                w_message = ''List header appears after HTML start''\<rparr>)
       (take 1 (filter (\<lambda>i. listHeaderAfterHtml (lines ! i)) [findHtmlStart lines..<length lines]))
   \<and> (isListHeaderLine t \<longleftrightarrow>
        LIST_BLOCK_HEADER_REGEX t \<noteq> None \<or> LIST_SHORTHAND_REGEX t \<noteq> None
        \<or> DOLLAR_SHORTHAND_REGEX t \<noteq> None \<or> FUNCTION_HEADER_REGEX t)"
proof -
  have shapes: "isListHeaderLine t \<longleftrightarrow>
        LIST_BLOCK_HEADER_REGEX t \<noteq> None \<or> LIST_SHORTHAND_REGEX t \<noteq> None
        \<or> DOLLAR_SHORTHAND_REGEX t \<noteq> None \<or> FUNCTION_HEADER_REGEX t"
    unfolding isListHeaderLine_def
    by (cases t)
       (simp_all add: LIST_BLOCK_HEADER_REGEX_def LIST_BLOCK_HEADER_REGEX_with_def isIdentifier_def
          LIST_SHORTHAND_REGEX_def LIST_SHORTHAND_REGEX_with_def DOLLAR_SHORTHAND_REGEX_def
          DOLLAR_SHORTHAND_REGEX_with_def FUNCTION_HEADER_REGEX_def functionHeaderTail_def
          startsWith_def)
  have first: "filter (\<lambda>w. w_code w = ''list-after-html'')
        (b_warnings (analyzePerchance_state lines)) = []"
    unfolding analyzePerchance_state_after
    by (rule batch_no_list_after_html) (rule findHtmlStart_le)
  have second: "filter (\<lambda>w. w_code w = ''list-after-html'')
        (map wListAfterHtml (take 1 (filter (\<lambda>i. listHeaderAfterHtml (lines ! i))
            [findHtmlStart lines..<length lines])))
      = map wListAfterHtml (take 1 (filter (\<lambda>i. listHeaderAfterHtml (lines ! i))
            [findHtmlStart lines..<length lines]))"
    by (rule filter_True) (auto simp: wListAfterHtml_def)
  have "wListAfterHtml = (\<lambda>i. \<lparr>w_line = i + 1, w_code = ''list-after-html'',
                w_message = ''List header appears after HTML start''\<rparr>)"
    by (rule ext) (simp add: wListAfterHtml_def)
  then show ?thesis
    unfolding analyzePerchance_lines_def listAfterHtml_lines filter_append first second
    using shapes by simp
qed

theorem analyzePerchance_list_after_html_first_only_witness:
  "findHtmlStart [''a'', '''', ''<p>'', ''<!-- c = 1'', ''b = 1'', ''c''] = 2
   \<and> filter (\<lambda>i. listHeaderAfterHtml ([''a'', '''', ''<p>'', ''<!-- c = 1'', ''b = 1'', ''c''] ! i))
        [2..<6] = [4, 5]
   \<and> filter (\<lambda>w. w_code w = ''list-after-html'')
        (analyzePerchance_lines [''a'', '''', ''<p>'', ''<!-- c = 1'', ''b = 1'', ''c''])
      = [\<lparr>w_line = 5, w_code = ''list-after-html'',
          w_message = ''List header appears after HTML start''\<rparr>]"
proof -
  let ?doc = "[''a'', '''', ''<p>'', ''<!-- c = 1'', ''b = 1'', ''c'']"
  have h: "findHtmlStart ?doc = 2" by code_simp
  have f: "filter (\<lambda>i. listHeaderAfterHtml (?doc ! i)) [2..<6] = [4, 5]" by code_simp
  have l: "length ?doc = 6" by simp
  from analyzePerchance_list_after_html_first_only[of ?doc "''b = 1''"] show ?thesis
    unfolding h l f by (simp add: h f)
qed

section \<open>Properties of the interactive analyzer and of both duplicate and indentation rules\<close>

lemma analyzeDocument_line_skip:
  "\<not> listLine line \<Longrightarrow> analyzeDocument_line cfg i line st = st"
  unfolding analyzeDocument_line_def listLine_def by (auto simp: Let_def)

lemma analyzeDocument_line_index:
  "listNameIndex (analyzeDocument_line cfg i line st) =
     (if checkDuplicates cfg then
        (case docTopName line of
           None \<Rightarrow> listNameIndex st
         | Some n \<Rightarrow>
             if listNameIndex st n \<noteq> None then listNameIndex st
             else (listNameIndex st)(n \<mapsto> i))
      else listNameIndex st)"
proof (cases "listLine line")
  case False
  then show ?thesis
    by (simp add: analyzeDocument_line_skip docTopName_def topLevelLine_def)
next
  case True
  then have t: "trim line \<noteq> []" "\<not> startsWith (trim line) ''//''"
    by (simp_all add: listLine_def)
  show ?thesis
  proof (cases "leadingIndent line = []")
    case top: True
    show ?thesis
      using True t top
      unfolding analyzeDocument_line_def docTopName_def topLevelLine_def
      by (auto simp: Let_def pushDiagnostic_def split: option.splits)
  next
    case ind: False
    show ?thesis
      using True t ind
      unfolding analyzeDocument_line_def docTopName_def topLevelLine_def
      by (auto simp: Let_def pushDiagnostic_def split: option.splits)
  qed
qed

lemma analyzeDocument_line_diagnostics:
  assumes "c \<noteq> ''perchance.ifElseSingleEquals''"
  shows "filter (\<lambda>d. d_code d = Some c) (diagnostics (analyzeDocument_line cfg i line st)) =
     filter (\<lambda>d. d_code d = Some c) (diagnostics st)
     @ filter (\<lambda>d. d_code d = Some c)
        ((if checkDuplicates cfg then dupDiagnostics (listNameIndex st) i (docTopName line) else [])
         @ (if checkIndentation cfg \<and> indentedLine line \<and> mixedIndent line
            then [dMixed i line] else [])
         @ (if checkIndentation cfg \<and> indentedLine line \<and> oddIndent line
            then [dOdd i line] else []))"
proof (cases "listLine line")
  case False
  then have skip: "analyzeDocument_line cfg i line st = st" "docTopName line = None"
    "indentedLine line = False"
    by (simp_all add: analyzeDocument_line_skip docTopName_def topLevelLine_def indentedLine_def)
  have "dupDiagnostics (listNameIndex st) i None = []" by (simp add: dupDiagnostics_def)
  then show ?thesis
    by (simp only: skip if_False simp_thms append_Nil2 if_cancel filter.simps)
next
  case True
  then have t: "(trim line = [] \<or> startsWith (trim line) ''//'') = False"
    by (simp add: listLine_def)
  define indent where "indent = leadingIndent line"
  define lvl where "lvl = countIndentLevel indent"
  define cf where "cf = stripComment (drop (length indent) line)"
  define st1 where "st1 = (case functionIndentLevel st of
                     Some level \<Rightarrow>
                       if lvl \<le> level then st\<lparr>functionIndentLevel := None\<rparr> else st
                   | None \<Rightarrow> st)"
  define st2 where "st2 = (if isFunctionListStart (trim cf)
                   then st1\<lparr>functionIndentLevel := Some lvl\<rparr> else st1)"
  define st3 where "st3 =
              (if checkDuplicates cfg \<and> indent = [] then
                 (case parseListName (trim cf) of
                    None \<Rightarrow> st2
                  | Some listName \<Rightarrow>
                      if listNameIndex st2 listName \<noteq> None then
                        pushDiagnostic
                          (createDiagnostic i 0 (length listName)
                             ''Duplicate top-level list name.'' ''perchance.duplicateListName'' None)
                          st2
                      else st2\<lparr>listNameIndex := (listNameIndex st2)(listName \<mapsto> i)\<rparr>)
               else st2)"
  define st5 where "st5 =
                        (if includesStr indent [TAB] \<and> includesStr indent [SPACE] then
                           pushDiagnostic
                             (createDiagnostic i 0 (length indent)
                                ''Mixed tabs and spaces in indentation.''
                                ''perchance.indentationMixed'' None)
                             st3
                         else st3)"
  define st4 where "st4 =
              (if checkIndentation cfg \<and> indent \<noteq> [] then
                 (if length (filter (\<lambda>c. c \<noteq> TAB) indent) mod 2 \<noteq> 0 then
                       pushDiagnostic
                         (createDiagnostic i 0 (length indent)
                            ''Indentation should use tabs or multiples of two spaces.''
                            ''perchance.indentationSpacing'' None)
                         st5
                     else st5)
               else st3)"
  define skp where "skp =
              (case functionIndentLevel st4 of None \<Rightarrow> False | Some level \<Rightarrow> level < lvl)"
  have whole: "analyzeDocument_line cfg i line st =
      (if checkIfElseEquals cfg \<and> \<not> skp then
             st4\<lparr>diagnostics := diagnostics st4 @
                   map (\<lambda>warning.
                         createDiagnostic i (length indent + span_start warning)
                           (length indent + span_end warning)
                           ''If/else conditions should use == instead of =.''
                           ''perchance.ifElseSingleEquals'' (Some i))
                     (findIfElseSingleEquals cf)\<rparr>
           else st4)"
    unfolding analyzeDocument_line_def Let_def skp_def st4_def st5_def st3_def st2_def st1_def
      cf_def lvl_def indent_def
    by (simp only: t if_False)
  have se: "filter (\<lambda>d. d_code d = Some c)
      (map (\<lambda>warning. createDiagnostic i (a + span_start warning) (a + span_end warning) m
              ''perchance.ifElseSingleEquals'' dat) ws) = []" for a m dat ws
    using assms by (induction ws) (auto simp: createDiagnostic_def)
  have final: "filter (\<lambda>d. d_code d = Some c) (diagnostics (analyzeDocument_line cfg i line st))
      = filter (\<lambda>d. d_code d = Some c) (diagnostics st4)"
    unfolding whole by (simp add: se)
  have p1: "diagnostics st1 = diagnostics st" "listNameIndex st1 = listNameIndex st"
    unfolding st1_def by (simp_all split: option.splits)
  have p2: "diagnostics st2 = diagnostics st" "listNameIndex st2 = listNameIndex st"
    unfolding st2_def using p1 by simp_all
  have top_name: "indent = [] \<Longrightarrow> docTopName line = parseListName (trim cf)"
    using True unfolding docTopName_def topLevelLine_def cf_def indent_def by simp
  have ind_name: "indent \<noteq> [] \<Longrightarrow> docTopName line = None"
    unfolding docTopName_def topLevelLine_def indent_def by simp
  have p3: "diagnostics st3 = diagnostics st
      @ (if checkDuplicates cfg then dupDiagnostics (listNameIndex st) i (docTopName line) else [])"
  proof (cases "checkDuplicates cfg \<and> indent = []")
    case False
    then have "st3 = st2" unfolding st3_def by (simp only: if_False)
    moreover have "checkDuplicates cfg \<Longrightarrow> dupDiagnostics (listNameIndex st) i (docTopName line) = []"
      using False ind_name by (simp add: dupDiagnostics_def)
    ultimately show ?thesis using p2 by simp
  next
    case cd: True
    show ?thesis
    proof (cases "parseListName (trim cf)")
      case None
      then have "st3 = st2" using cd by (simp add: st3_def)
      moreover have "dupDiagnostics (listNameIndex st) i (docTopName line) = []"
        using cd top_name None by (simp add: dupDiagnostics_def)
      ultimately show ?thesis using p2 by simp
    next
      case (Some n)
      show ?thesis
      proof (cases "listNameIndex st n = None")
        case rec: True
        then have "st3 = st2\<lparr>listNameIndex := (listNameIndex st2)(n \<mapsto> i)\<rparr>"
          using cd Some p2 by (simp add: st3_def)
        moreover have "dupDiagnostics (listNameIndex st) i (docTopName line) = []"
          using cd top_name Some rec by (simp add: dupDiagnostics_def)
        ultimately show ?thesis using p2 by simp
      next
        case rec: False
        then have "st3 = pushDiagnostic (dDup i n) st2"
          using cd Some p2 by (simp add: st3_def dDup_def)
        moreover have "dupDiagnostics (listNameIndex st) i (docTopName line) = [dDup i n]"
          using cd top_name Some rec by (simp add: dupDiagnostics_def)
        ultimately show ?thesis using p2 cd by (simp add: pushDiagnostic_def)
      qed
    qed
  qed
  have il: "indentedLine line \<longleftrightarrow> indent \<noteq> []"
    using True by (simp add: indentedLine_def indent_def)
  have mx: "includesStr indent [TAB] \<and> includesStr indent [SPACE] \<longleftrightarrow> mixedIndent line"
    by (simp add: includesStr_char mixedIndent_def indent_def)
  have p5: "diagnostics st5 = diagnostics st3 @ (if mixedIndent line then [dMixed i line] else [])"
    unfolding st5_def mx by (simp add: pushDiagnostic_def dMixed_def indent_def)
  have od: "length (filter (\<lambda>c. c \<noteq> TAB) indent) mod 2 \<noteq> 0 \<longleftrightarrow> oddIndent line"
    using spaceCount_odd[of line] by (simp add: indent_def)
  have p4: "diagnostics st4 = diagnostics st3
      @ (if checkIndentation cfg \<and> indentedLine line \<and> mixedIndent line then [dMixed i line] else [])
      @ (if checkIndentation cfg \<and> indentedLine line \<and> oddIndent line then [dOdd i line] else [])"
    unfolding st4_def od il using p5 by (simp add: pushDiagnostic_def dOdd_def indent_def)
  show ?thesis
    unfolding final p4 p3 by simp
qed

lemma analyzeDocument_loop_snoc:
  "analyzeDocument_loop cfg k (xs @ [x]) st =
     analyzeDocument_line cfg (k + length xs) x (analyzeDocument_loop cfg k xs st)"
  by (induction xs arbitrary: k st) simp_all

lemma docAfter_0:
  "docAfter cfg ds lines 0 =
     \<lparr>diagnostics = ds, listNameIndex = Map.empty, functionIndentLevel = None\<rparr>"
  by (simp add: docAfter_def)

lemma docAfter_Suc:
  "k < length lines \<Longrightarrow>
     docAfter cfg ds lines (Suc k) = analyzeDocument_line cfg k (lines ! k) (docAfter cfg ds lines k)"
  unfolding docAfter_def
  by (simp add: take_Suc_conv_app_nth analyzeDocument_loop_snoc)

lemma doc_recorded:
  assumes "checkDuplicates cfg" "k \<le> length lines"
  shows "(listNameIndex (docAfter cfg ds lines k) n \<noteq> None
            \<longleftrightarrow> (\<exists>j < k. docTopName (lines ! j) = Some n))
       \<and> (listNameIndex (docAfter cfg ds lines k) n = Some j \<longleftrightarrow>
            j < k \<and> docTopName (lines ! j) = Some n \<and> \<not> alreadyRecorded docTopName lines j)"
proof (rule recorded_generic[where f = "\<lambda>k. listNameIndex (docAfter cfg ds lines k)" and N = "length lines"])
  show "listNameIndex (docAfter cfg ds lines 0) = Map.empty" by (simp add: docAfter_0)
  show "k \<le> length lines" by (rule assms)
  fix k assume "k < length lines"
  then show "listNameIndex (docAfter cfg ds lines (Suc k)) =
      (case docTopName (lines ! k) of
         None \<Rightarrow> listNameIndex (docAfter cfg ds lines k)
       | Some n \<Rightarrow>
           if listNameIndex (docAfter cfg ds lines k) n \<noteq> None
           then listNameIndex (docAfter cfg ds lines k)
           else (listNameIndex (docAfter cfg ds lines k))(n \<mapsto> k))"
    using assms(1) by (simp only: docAfter_Suc analyzeDocument_line_index if_True)
qed

lemma dDup_code: "d_code (dDup i n) = Some ''perchance.duplicateListName''"
  by (simp add: dDup_def createDiagnostic_def)

lemma dMixed_code: "d_code (dMixed i line) = Some ''perchance.indentationMixed''"
  by (simp add: dMixed_def createDiagnostic_def)

lemma dOdd_code: "d_code (dOdd i line) = Some ''perchance.indentationSpacing''"
  by (simp add: dOdd_def createDiagnostic_def)

lemma dupDiagnostics_recorded:
  "dupDiagnostics recorded i nm =
     (if nm \<noteq> None \<and> recorded (nameOr nm) \<noteq> None then [dDup i (nameOr nm)] else [])"
  by (cases nm) (simp_all add: dupDiagnostics_def nameOr_def)

lemma doc_duplicates:
  assumes "checkDuplicates cfg" "k \<le> length lines"
    and "filter (\<lambda>d. d_code d = Some ''perchance.duplicateListName'') ds = []"
  shows "filter (\<lambda>d. d_code d = Some ''perchance.duplicateListName'')
           (diagnostics (docAfter cfg ds lines k)) =
         map (\<lambda>i. dDup i (nameOr (docTopName (lines ! i))))
           (filter (alreadyRecorded docTopName lines) [0..<k])"
proof (rule emitted_generic[where N = "length lines"])
  show "filter (\<lambda>d. d_code d = Some ''perchance.duplicateListName'')
          (diagnostics (docAfter cfg ds lines 0)) = []"
    using assms(3) by (simp add: docAfter_0)
  show "k \<le> length lines" by (rule assms)
  fix k assume k: "k < length lines"
  note R = doc_recorded[of cfg k lines ds, OF assms(1) less_imp_le[OF k]]
  have rec_k: "alreadyRecorded docTopName lines k \<longleftrightarrow>
      docTopName (lines ! k) \<noteq> None
      \<and> listNameIndex (docAfter cfg ds lines k) (nameOr (docTopName (lines ! k))) \<noteq> None"
  proof (cases "docTopName (lines ! k)")
    case None
    then show ?thesis by (simp add: alreadyRecorded_def)
  next
    case (Some m)
    have "listNameIndex (docAfter cfg ds lines k) m \<noteq> None
            \<longleftrightarrow> (\<exists>j < k. docTopName (lines ! j) = Some m)"
      using R[of m] by (rule conjunct1)
    then show ?thesis using Some by (simp add: alreadyRecorded_def nameOr_def del: not_None_eq)
  qed
  have c: "''perchance.duplicateListName'' \<noteq> ''perchance.ifElseSingleEquals''" by simp
  show "filter (\<lambda>d. d_code d = Some ''perchance.duplicateListName'')
          (diagnostics (docAfter cfg ds lines (Suc k))) =
        filter (\<lambda>d. d_code d = Some ''perchance.duplicateListName'')
          (diagnostics (docAfter cfg ds lines k))
        @ (if alreadyRecorded docTopName lines k
           then [dDup k (nameOr (docTopName (lines ! k)))] else [])"
    unfolding docAfter_Suc[OF k] analyzeDocument_line_diagnostics[OF c] dupDiagnostics_recorded
      rec_k
    using assms(1) by (simp add: dDup_code dMixed_code dOdd_code del: not_None_eq)
qed

lemma doc_mixed:
  assumes "checkIndentation cfg" "k \<le> length lines"
    and "filter (\<lambda>d. d_code d = Some ''perchance.indentationMixed'') ds = []"
  shows "filter (\<lambda>d. d_code d = Some ''perchance.indentationMixed'')
           (diagnostics (docAfter cfg ds lines k)) =
         map (\<lambda>i. dMixed i (lines ! i))
           (filter (\<lambda>i. indentedLine (lines ! i) \<and> mixedIndent (lines ! i)) [0..<k])"
proof (rule emitted_generic[where N = "length lines"])
  show "filter (\<lambda>d. d_code d = Some ''perchance.indentationMixed'')
          (diagnostics (docAfter cfg ds lines 0)) = []"
    using assms(3) by (simp add: docAfter_0)
  show "k \<le> length lines" by (rule assms)
  fix k assume k: "k < length lines"
  have c: "''perchance.indentationMixed'' \<noteq> ''perchance.ifElseSingleEquals''" by simp
  show "filter (\<lambda>d. d_code d = Some ''perchance.indentationMixed'')
          (diagnostics (docAfter cfg ds lines (Suc k))) =
        filter (\<lambda>d. d_code d = Some ''perchance.indentationMixed'')
          (diagnostics (docAfter cfg ds lines k))
        @ (if indentedLine (lines ! k) \<and> mixedIndent (lines ! k) then [dMixed k (lines ! k)] else [])"
    unfolding docAfter_Suc[OF k] analyzeDocument_line_diagnostics[OF c] dupDiagnostics_recorded
    using assms(1) by (simp add: dDup_code dMixed_code dOdd_code del: not_None_eq)
qed

lemma doc_odd:
  assumes "checkIndentation cfg" "k \<le> length lines"
    and "filter (\<lambda>d. d_code d = Some ''perchance.indentationSpacing'') ds = []"
  shows "filter (\<lambda>d. d_code d = Some ''perchance.indentationSpacing'')
           (diagnostics (docAfter cfg ds lines k)) =
         map (\<lambda>i. dOdd i (lines ! i))
           (filter (\<lambda>i. indentedLine (lines ! i) \<and> oddIndent (lines ! i)) [0..<k])"
proof (rule emitted_generic[where N = "length lines"])
  show "filter (\<lambda>d. d_code d = Some ''perchance.indentationSpacing'')
          (diagnostics (docAfter cfg ds lines 0)) = []"
    using assms(3) by (simp add: docAfter_0)
  show "k \<le> length lines" by (rule assms)
  fix k assume k: "k < length lines"
  have c: "''perchance.indentationSpacing'' \<noteq> ''perchance.ifElseSingleEquals''" by simp
  show "filter (\<lambda>d. d_code d = Some ''perchance.indentationSpacing'')
          (diagnostics (docAfter cfg ds lines (Suc k))) =
        filter (\<lambda>d. d_code d = Some ''perchance.indentationSpacing'')
          (diagnostics (docAfter cfg ds lines k))
        @ (if indentedLine (lines ! k) \<and> oddIndent (lines ! k) then [dOdd k (lines ! k)] else [])"
    unfolding docAfter_Suc[OF k] analyzeDocument_line_diagnostics[OF c] dupDiagnostics_recorded
    using assms(1) by (simp add: dDup_code dMixed_code dOdd_code del: not_None_eq)
qed

lemma unknownReferences_no_code:
  "filter (\<lambda>d. d_code d = Some c) (unknownReferences document) = []"
  unfolding unknownReferences_def Let_def by (simp add: filter_map comp_def)

lemma analyzeDocument_state_after:
  "analyzeDocument_state lines cfg =
     docAfter cfg (unknownReferences lines) lines (findHtmlStart lines)"
  by (simp add: analyzeDocument_state_def docAfter_def)

lemma listAfterHtml_code:
  "filter (\<lambda>w. w_code w = c) (map wListAfterHtml xs) = (if c = ''list-after-html'' then map wListAfterHtml xs else [])"
  by (induction xs) (auto simp: wListAfterHtml_def)

text \<open>
  Claim C8. For the lines before the markup boundary that are neither blank nor comments and are
  indented, the batch script emits a mixed-indentation finding exactly when the leading run holds
  a tab and a space, and an odd-indentation finding exactly when the number of spaces in the
  leading run is odd; the two are independent. The interactive analyzer, with the indentation
  check enabled, emits its two findings under the same conditions, so both flag the same lines.
\<close>

theorem indentation_findings_batch_and_interactive:
  "filter (\<lambda>w. w_code w = ''mixed-indent'') (analyzePerchance_lines lines) =
     map (\<lambda>i. \<lparr>w_line = i + 1, w_code = ''mixed-indent'',
                w_message = ''Mixed tabs and spaces in indentation''\<rparr>)
       (filter (\<lambda>i. indentedLine (lines ! i) \<and> mixedIndent (lines ! i)) [0..<findHtmlStart lines])
   \<and> filter (\<lambda>w. w_code w = ''odd-indent'') (analyzePerchance_lines lines) =
     map (\<lambda>i. \<lparr>w_line = i + 1, w_code = ''odd-indent'',
                w_message = ''Indentation should use tabs or multiples of two spaces''\<rparr>)
       (filter (\<lambda>i. indentedLine (lines ! i) \<and> oddIndent (lines ! i)) [0..<findHtmlStart lines])
   \<and> (checkIndentation cfg \<longrightarrow>
        filter (\<lambda>d. d_code d = Some ''perchance.indentationMixed'') (analyzeDocument lines cfg) =
          map (\<lambda>i. createDiagnostic i 0 (length (leadingIndent (lines ! i)))
                     ''Mixed tabs and spaces in indentation.'' ''perchance.indentationMixed'' None)
            (filter (\<lambda>i. indentedLine (lines ! i) \<and> mixedIndent (lines ! i))
               [0..<findHtmlStart lines])
        \<and> filter (\<lambda>d. d_code d = Some ''perchance.indentationSpacing'') (analyzeDocument lines cfg) =
          map (\<lambda>i. createDiagnostic i 0 (length (leadingIndent (lines ! i)))
                     ''Indentation should use tabs or multiples of two spaces.''
                     ''perchance.indentationSpacing'' None)
            (filter (\<lambda>i. indentedLine (lines ! i) \<and> oddIndent (lines ! i))
               [0..<findHtmlStart lines])
        \<and> map d_line (filter (\<lambda>d. d_code d = Some ''perchance.indentationMixed'')
                          (analyzeDocument lines cfg))
          = map (\<lambda>w. w_line w - 1) (filter (\<lambda>w. w_code w = ''mixed-indent'')
                          (analyzePerchance_lines lines))
        \<and> map d_line (filter (\<lambda>d. d_code d = Some ''perchance.indentationSpacing'')
                          (analyzeDocument lines cfg))
          = map (\<lambda>w. w_line w - 1) (filter (\<lambda>w. w_code w = ''odd-indent'')
                          (analyzePerchance_lines lines)))"
proof -
  let ?h = "findHtmlStart lines"
  let ?M = "filter (\<lambda>i. indentedLine (lines ! i) \<and> mixedIndent (lines ! i)) [0..<?h]"
  let ?O = "filter (\<lambda>i. indentedLine (lines ! i) \<and> oddIndent (lines ! i)) [0..<?h]"
  note h = findHtmlStart_le[of lines]
  have bm: "filter (\<lambda>w. w_code w = ''mixed-indent'') (analyzePerchance_lines lines) = map wMixed ?M"
    unfolding analyzePerchance_lines_def listAfterHtml_lines filter_append
      analyzePerchance_state_after batch_mixed[OF h] listAfterHtml_code
    by simp
  have bo: "filter (\<lambda>w. w_code w = ''odd-indent'') (analyzePerchance_lines lines) = map wOdd ?O"
    unfolding analyzePerchance_lines_def listAfterHtml_lines filter_append
      analyzePerchance_state_after batch_odd[OF h] listAfterHtml_code
    by simp
  have wm: "wMixed = (\<lambda>i. \<lparr>w_line = i + 1, w_code = ''mixed-indent'',
                w_message = ''Mixed tabs and spaces in indentation''\<rparr>)"
    by (rule ext) (simp add: wMixed_def)
  have wo: "wOdd = (\<lambda>i. \<lparr>w_line = i + 1, w_code = ''odd-indent'',
                w_message = ''Indentation should use tabs or multiples of two spaces''\<rparr>)"
    by (rule ext) (simp add: wOdd_def)
  have lines_b: "map (\<lambda>w. w_line w - 1) (map wMixed xs) = xs"
    "map (\<lambda>w. w_line w - 1) (map wOdd xs) = xs" for xs
    by (induction xs) (simp_all add: wMixed_def wOdd_def)
  have interactive: "filter (\<lambda>d. d_code d = Some ''perchance.indentationMixed'')
          (analyzeDocument lines cfg) = map (\<lambda>i. dMixed i (lines ! i)) ?M
      \<and> filter (\<lambda>d. d_code d = Some ''perchance.indentationSpacing'')
          (analyzeDocument lines cfg) = map (\<lambda>i. dOdd i (lines ! i)) ?O"
    if ci: "checkIndentation cfg"
  proof -
    from ci have run: "analyzeDocument lines cfg = diagnostics (analyzeDocument_state lines cfg)"
      by (simp add: analyzeDocument_def)
    show ?thesis
      unfolding run analyzeDocument_state_after
      using doc_mixed[OF ci h unknownReferences_no_code] doc_odd[OF ci h unknownReferences_no_code]
      by simp
  qed
  have dm: "(\<lambda>i. dMixed i (lines ! i)) = (\<lambda>i. createDiagnostic i 0 (length (leadingIndent (lines ! i)))
                     ''Mixed tabs and spaces in indentation.'' ''perchance.indentationMixed'' None)"
    by (rule ext) (simp add: dMixed_def)
  have dod: "(\<lambda>i. dOdd i (lines ! i)) = (\<lambda>i. createDiagnostic i 0 (length (leadingIndent (lines ! i)))
                     ''Indentation should use tabs or multiples of two spaces.''
                     ''perchance.indentationSpacing'' None)"
    by (rule ext) (simp add: dOdd_def)
  have lines_i: "map d_line (map (\<lambda>i. dMixed i (lines ! i)) xs) = xs"
    "map d_line (map (\<lambda>i. dOdd i (lines ! i)) xs) = xs" for xs
    by (induction xs) (simp_all add: dMixed_def dOdd_def createDiagnostic_def)
  show ?thesis
  proof (intro conjI impI)
    show "filter (\<lambda>w. w_code w = ''mixed-indent'') (analyzePerchance_lines lines) =
       map (\<lambda>i. \<lparr>w_line = i + 1, w_code = ''mixed-indent'',
                w_message = ''Mixed tabs and spaces in indentation''\<rparr>) ?M"
      using bm wm by simp
    show "filter (\<lambda>w. w_code w = ''odd-indent'') (analyzePerchance_lines lines) =
       map (\<lambda>i. \<lparr>w_line = i + 1, w_code = ''odd-indent'',
                w_message = ''Indentation should use tabs or multiples of two spaces''\<rparr>) ?O"
      using bo wo by simp
  next
    assume ci: "checkIndentation cfg"
    show "filter (\<lambda>d. d_code d = Some ''perchance.indentationMixed'') (analyzeDocument lines cfg) =
          map (\<lambda>i. createDiagnostic i 0 (length (leadingIndent (lines ! i)))
                     ''Mixed tabs and spaces in indentation.'' ''perchance.indentationMixed'' None) ?M"
      using interactive[OF ci] dm by simp
    show "filter (\<lambda>d. d_code d = Some ''perchance.indentationSpacing'') (analyzeDocument lines cfg) =
          map (\<lambda>i. createDiagnostic i 0 (length (leadingIndent (lines ! i)))
                     ''Indentation should use tabs or multiples of two spaces.''
                     ''perchance.indentationSpacing'' None) ?O"
      using interactive[OF ci] dod by simp
    show "map d_line (filter (\<lambda>d. d_code d = Some ''perchance.indentationMixed'')
                          (analyzeDocument lines cfg))
          = map (\<lambda>w. w_line w - 1) (filter (\<lambda>w. w_code w = ''mixed-indent'')
                          (analyzePerchance_lines lines))"
      using interactive[OF ci] bm lines_b(1)[of ?M] lines_i(1)[of ?M] by simp
    show "map d_line (filter (\<lambda>d. d_code d = Some ''perchance.indentationSpacing'')
                          (analyzeDocument lines cfg))
          = map (\<lambda>w. w_line w - 1) (filter (\<lambda>w. w_code w = ''odd-indent'')
                          (analyzePerchance_lines lines))"
      using interactive[OF ci] bo lines_b(2)[of ?O] lines_i(2)[of ?O] by simp
  qed
qed

theorem indentation_findings_batch_and_interactive_witness:
  "checkIndentation \<lparr>checkDuplicates = False, checkIndentation = True, checkIfElseEquals = False\<rparr>
   \<and> map w_line (filter (\<lambda>w. w_code w = ''mixed-indent'')
        (analyzePerchance_lines [''a'', [TAB, SPACE] @ ''x'', [SPACE] @ ''y'', [TAB] @ ''z''])) = [2]
   \<and> map w_line (filter (\<lambda>w. w_code w = ''odd-indent'')
        (analyzePerchance_lines [''a'', [TAB, SPACE] @ ''x'', [SPACE] @ ''y'', [TAB] @ ''z''])) = [2, 3]
   \<and> map d_line (filter (\<lambda>d. d_code d = Some ''perchance.indentationMixed'')
        (analyzeDocument [''a'', [TAB, SPACE] @ ''x'', [SPACE] @ ''y'', [TAB] @ ''z'']
           \<lparr>checkDuplicates = False, checkIndentation = True, checkIfElseEquals = False\<rparr>)) = [1]
   \<and> map d_line (filter (\<lambda>d. d_code d = Some ''perchance.indentationSpacing'')
        (analyzeDocument [''a'', [TAB, SPACE] @ ''x'', [SPACE] @ ''y'', [TAB] @ ''z'']
           \<lparr>checkDuplicates = False, checkIndentation = True, checkIfElseEquals = False\<rparr>)) = [1, 2]"
proof -
  let ?doc = "[''a'', [TAB, SPACE] @ ''x'', [SPACE] @ ''y'', [TAB] @ ''z'']"
  let ?cfg = "\<lparr>checkDuplicates = False, checkIndentation = True, checkIfElseEquals = False\<rparr>"
  have ci: "checkIndentation ?cfg" by simp
  have m: "map w_line (filter (\<lambda>w. w_code w = ''mixed-indent'') (analyzePerchance_lines ?doc)) = [2]"
    by code_simp
  have od: "map w_line (filter (\<lambda>w. w_code w = ''odd-indent'') (analyzePerchance_lines ?doc)) = [2, 3]"
    by code_simp
  have shift: "map (\<lambda>w. w_line w - 1) ws = map (\<lambda>n. n - 1) (map w_line ws)" for ws :: "warning list"
    by simp
  from indentation_findings_batch_and_interactive[of ?doc ?cfg] ci
  have "map d_line (filter (\<lambda>d. d_code d = Some ''perchance.indentationMixed'')
          (analyzeDocument ?doc ?cfg))
          = map (\<lambda>w. w_line w - 1) (filter (\<lambda>w. w_code w = ''mixed-indent'')
              (analyzePerchance_lines ?doc))"
    and "map d_line (filter (\<lambda>d. d_code d = Some ''perchance.indentationSpacing'')
          (analyzeDocument ?doc ?cfg))
          = map (\<lambda>w. w_line w - 1) (filter (\<lambda>w. w_code w = ''odd-indent'')
              (analyzePerchance_lines ?doc))"
    by blast+
  then show ?thesis
    unfolding shift m od using ci m od by simp
qed

lemma filter_upt_single:
  assumes "a < h" and "\<And>i. i < h \<Longrightarrow> P i \<longleftrightarrow> i = a"
  shows "filter P [0..<h] = [a]"
proof -
  have "[0..<h] = [0..<a] @ [a..<h]"
    using upt_add_eq_append[of 0 a "h - a"] assms(1) by simp
  then have split: "[0..<h] = [0..<a] @ a # [Suc a..<h]"
    using assms(1) by (simp add: upt_conv_Cons)
  have "filter P [0..<a] = []"
    using assms by (auto simp: filter_empty_conv)
  moreover have "filter P [Suc a..<h] = []"
    using assms by (auto simp: filter_empty_conv)
  moreover have "P a" using assms by simp
  ultimately show ?thesis unfolding split by simp
qed

lemma only_top_level_lines:
  assumes "filter (\<lambda>i. topLevelLine (lines ! i)) [0..<h] = [0, 5]"
  shows "5 < h" and "\<And>i. i < h \<Longrightarrow> topLevelLine (lines ! i) \<longleftrightarrow> i = 0 \<or> i = 5"
proof -
  have mem: "i \<in> set (filter (\<lambda>i. topLevelLine (lines ! i)) [0..<h]) \<longleftrightarrow> i = 0 \<or> i = 5" for i
    unfolding assms by simp
  from mem[of 5] show "5 < h" by simp
  fix i assume "i < h"
  with mem[of i] show "topLevelLine (lines ! i) \<longleftrightarrow> i = 0 \<or> i = 5" by simp
qed

lemma foo_twice_recorded:
  assumes top: "filter (\<lambda>i. topLevelLine (lines ! i)) [0..<h] = [0, 5]"
    and l0: "lines ! 0 = ''foo''" and l5: "lines ! 5 = ''foo''"
    and n: "nameOf ''foo'' = Some ''foo''"
    and nontop: "\<And>line. \<not> topLevelLine line \<Longrightarrow> nameOf line = None"
  shows "filter (alreadyRecorded nameOf lines) [0..<h] = [5]"
    and "nameOf (lines ! 5) = Some ''foo''"
    and "0 < h \<and> nameOf (lines ! 0) = Some ''foo'' \<and> \<not> alreadyRecorded nameOf lines 0"
proof -
  note T = only_top_level_lines[OF top]
  from T(1) have h0: "0 < h" by simp
  show "nameOf (lines ! 5) = Some ''foo''" using n l5 by simp
  show "0 < h \<and> nameOf (lines ! 0) = Some ''foo'' \<and> \<not> alreadyRecorded nameOf lines 0"
    using h0 n l0 by (simp add: alreadyRecorded_def)
  have "alreadyRecorded nameOf lines i \<longleftrightarrow> i = 5" if i: "i < h" for i
  proof
    assume a: "alreadyRecorded nameOf lines i"
    then have some: "nameOf (lines ! i) \<noteq> None" by (simp add: alreadyRecorded_def)
    have "topLevelLine (lines ! i)"
    proof (rule ccontr)
      assume "\<not> topLevelLine (lines ! i)"
      then have "nameOf (lines ! i) = None" by (rule nontop)
      with some show False by simp
    qed
    with T(2)[OF i] have "i = 0 \<or> i = 5" by simp
    moreover from a have "\<exists>j < i. nameOf (lines ! j) = nameOf (lines ! i)"
      by (simp add: alreadyRecorded_def)
    then have "i \<noteq> 0" by auto
    ultimately show "i = 5" by simp
  next
    assume "i = 5"
    moreover have "nameOf (lines ! 5) \<noteq> None \<and> (0::nat) < 5
        \<and> nameOf (lines ! 0) = nameOf (lines ! 5)"
      using n l0 l5 by simp
    ultimately show "alreadyRecorded nameOf lines i"
      unfolding alreadyRecorded_def by (intro conjI exI[of _ 0]) simp_all
  qed
  then show "filter (alreadyRecorded nameOf lines) [0..<h] = [5]"
    by (rule filter_upt_single[OF T(1)])
qed

text \<open>
  The duplicate findings of both analyzers and the record the rule keeps, and their values when
  the only top-level lines are \<open>foo\<close> at index 0 and \<open>foo\<close> at index 5.
\<close>

lemma duplicate_rule_findings_and_record:
  "filter (\<lambda>w. w_code w = ''duplicate-list'') (analyzePerchance_lines lines) =
     map (\<lambda>i. \<lparr>w_line = i + 1, w_code = ''duplicate-list'',
                w_message = ''Duplicate top-level list name: '' @ nameOr (batchTopName (lines ! i))\<rparr>)
       (filter (alreadyRecorded batchTopName lines) [0..<findHtmlStart lines])
   \<and> (b_listNameIndex (analyzePerchance_state lines) n = Some j \<longleftrightarrow>
        j < findHtmlStart lines \<and> batchTopName (lines ! j) = Some n
        \<and> \<not> alreadyRecorded batchTopName lines j)
   \<and> (checkDuplicates cfg \<longrightarrow>
        filter (\<lambda>d. d_code d = Some ''perchance.duplicateListName'') (analyzeDocument lines cfg) =
          map (\<lambda>i. createDiagnostic i 0 (length (nameOr (docTopName (lines ! i))))
                     ''Duplicate top-level list name.'' ''perchance.duplicateListName'' None)
            (filter (alreadyRecorded docTopName lines) [0..<findHtmlStart lines])
        \<and> (listNameIndex (analyzeDocument_state lines cfg) n = Some j \<longleftrightarrow>
             j < findHtmlStart lines \<and> docTopName (lines ! j) = Some n
             \<and> \<not> alreadyRecorded docTopName lines j))
   \<and> (filter (\<lambda>i. topLevelLine (lines ! i)) [0..<findHtmlStart lines] = [0, 5]
        \<and> lines ! 0 = ''foo'' \<and> lines ! 5 = ''foo'' \<longrightarrow>
        filter (\<lambda>w. w_code w = ''duplicate-list'') (analyzePerchance_lines lines) =
          [\<lparr>w_line = 6, w_code = ''duplicate-list'',
            w_message = ''Duplicate top-level list name: foo''\<rparr>]
        \<and> b_listNameIndex (analyzePerchance_state lines) ''foo'' = Some 0
        \<and> (checkDuplicates cfg \<longrightarrow>
             filter (\<lambda>d. d_code d = Some ''perchance.duplicateListName'')
               (analyzeDocument lines cfg) =
               [\<lparr>d_line = 5, d_start = 0, d_end = 3,
                 d_message = ''Duplicate top-level list name.'',
                 d_code = Some ''perchance.duplicateListName'', d_data = None\<rparr>]
             \<and> listNameIndex (analyzeDocument_state lines cfg) ''foo'' = Some 0))"
proof -
  let ?h = "findHtmlStart lines"
  note h = findHtmlStart_le[of lines]
  have wd: "(\<lambda>i. wDup i (nameOr (batchTopName (lines ! i)))) =
      (\<lambda>i. \<lparr>w_line = i + 1, w_code = ''duplicate-list'',
                w_message = ''Duplicate top-level list name: '' @ nameOr (batchTopName (lines ! i))\<rparr>)"
    by (rule ext) (simp add: wDup_def)
  have bd: "filter (\<lambda>w. w_code w = ''duplicate-list'') (analyzePerchance_lines lines) =
      map (\<lambda>i. wDup i (nameOr (batchTopName (lines ! i))))
        (filter (alreadyRecorded batchTopName lines) [0..<?h])"
    unfolding analyzePerchance_lines_def listAfterHtml_lines filter_append
      analyzePerchance_state_after batch_duplicates[OF h] listAfterHtml_code
    by simp
  have br: "b_listNameIndex (analyzePerchance_state lines) m = Some i \<longleftrightarrow>
        i < ?h \<and> batchTopName (lines ! i) = Some m \<and> \<not> alreadyRecorded batchTopName lines i"
    for m i
    unfolding analyzePerchance_state_after using batch_recorded[OF h, of m i] by (rule conjunct2)
  have dd: "(\<lambda>i. dDup i (nameOr (docTopName (lines ! i)))) =
      (\<lambda>i. createDiagnostic i 0 (length (nameOr (docTopName (lines ! i))))
                     ''Duplicate top-level list name.'' ''perchance.duplicateListName'' None)"
    by (rule ext) (simp add: dDup_def)
  have id: "filter (\<lambda>d. d_code d = Some ''perchance.duplicateListName'') (analyzeDocument lines cfg) =
          map (\<lambda>i. dDup i (nameOr (docTopName (lines ! i))))
            (filter (alreadyRecorded docTopName lines) [0..<?h])"
    if cd: "checkDuplicates cfg"
  proof -
    from cd have run: "analyzeDocument lines cfg = diagnostics (analyzeDocument_state lines cfg)"
      by (simp add: analyzeDocument_def)
    show ?thesis
      unfolding run analyzeDocument_state_after
      using doc_duplicates[OF cd h unknownReferences_no_code] by simp
  qed
  have ir: "listNameIndex (analyzeDocument_state lines cfg) m = Some i \<longleftrightarrow>
             i < ?h \<and> docTopName (lines ! i) = Some m \<and> \<not> alreadyRecorded docTopName lines i"
    if cd: "checkDuplicates cfg" for m i
    unfolding analyzeDocument_state_after
    using doc_recorded[OF cd h, of "unknownReferences lines" m i] by (rule conjunct2)
  have foo_top: "topLevelLine ''foo''"
    by code_simp
  have foo_batch: "batchTopName ''foo'' = Some ''foo''"
    by code_simp
  have foo_doc: "docTopName ''foo'' = Some ''foo''"
    by code_simp
  have example: "filter (\<lambda>w. w_code w = ''duplicate-list'') (analyzePerchance_lines lines) =
          [\<lparr>w_line = 6, w_code = ''duplicate-list'',
            w_message = ''Duplicate top-level list name: foo''\<rparr>]
        \<and> b_listNameIndex (analyzePerchance_state lines) ''foo'' = Some 0
        \<and> (checkDuplicates cfg \<longrightarrow>
             filter (\<lambda>d. d_code d = Some ''perchance.duplicateListName'')
               (analyzeDocument lines cfg) =
               [\<lparr>d_line = 5, d_start = 0, d_end = 3,
                 d_message = ''Duplicate top-level list name.'',
                 d_code = Some ''perchance.duplicateListName'', d_data = None\<rparr>]
             \<and> listNameIndex (analyzeDocument_state lines cfg) ''foo'' = Some 0)"
    if ex: "filter (\<lambda>i. topLevelLine (lines ! i)) [0..<?h] = [0, 5]
        \<and> lines ! 0 = ''foo'' \<and> lines ! 5 = ''foo''"
  proof -
    from ex have top: "filter (\<lambda>i. topLevelLine (lines ! i)) [0..<?h] = [0, 5]"
      and l0: "lines ! 0 = ''foo''" and l5: "lines ! 5 = ''foo''" by simp_all
    have nb: "\<not> topLevelLine line \<Longrightarrow> batchTopName line = None" for line
      by (simp add: batchTopName_def)
    have nd: "\<not> topLevelLine line \<Longrightarrow> docTopName line = None" for line
      by (simp add: docTopName_def)
    note B = foo_twice_recorded[where nameOf = batchTopName, OF top l0 l5 foo_batch nb]
    have Y: "map (\<lambda>i. wDup i (nameOr (batchTopName (lines ! i))))
        (filter (alreadyRecorded batchTopName lines) [0..<findHtmlStart lines])
        = [wDup 5 ''foo'']"
    proof -
      have "filter (alreadyRecorded batchTopName lines) [0..<findHtmlStart lines] = [5]"
        by (rule B(1))
      then show ?thesis by (simp add: B(2) nameOr_def)
    qed
    note D = foo_twice_recorded[where nameOf = docTopName, OF top l0 l5 foo_doc nd]
    have Z: "map (\<lambda>i. dDup i (nameOr (docTopName (lines ! i))))
        (filter (alreadyRecorded docTopName lines) [0..<findHtmlStart lines])
        = [dDup 5 ''foo'']"
    proof -
      have "filter (alreadyRecorded docTopName lines) [0..<findHtmlStart lines] = [5]"
        by (rule D(1))
      then show ?thesis by (simp add: D(2) nameOr_def)
    qed
    have "filter (\<lambda>w. w_code w = ''duplicate-list'') (analyzePerchance_lines lines) =
          [\<lparr>w_line = 6, w_code = ''duplicate-list'',
            w_message = ''Duplicate top-level list name: foo''\<rparr>]"
      using bd Y by (simp add: wDup_def)
    moreover have "b_listNameIndex (analyzePerchance_state lines) ''foo'' = Some 0"
      unfolding br using B(3) by simp
    moreover have "filter (\<lambda>d. d_code d = Some ''perchance.duplicateListName'')
               (analyzeDocument lines cfg) =
               [\<lparr>d_line = 5, d_start = 0, d_end = 3,
                 d_message = ''Duplicate top-level list name.'',
                 d_code = Some ''perchance.duplicateListName'', d_data = None\<rparr>]"
      if cd: "checkDuplicates cfg"
      using id[OF cd] Z by (simp add: dDup_def createDiagnostic_def)
    moreover have "listNameIndex (analyzeDocument_state lines cfg) ''foo'' = Some 0"
      if cd: "checkDuplicates cfg"
      unfolding ir[OF cd] using D(3) by simp
    ultimately show ?thesis by blast
  qed
  show ?thesis
  proof (intro conjI impI)
    show "filter (\<lambda>w. w_code w = ''duplicate-list'') (analyzePerchance_lines lines) =
     map (\<lambda>i. \<lparr>w_line = i + 1, w_code = ''duplicate-list'',
                w_message = ''Duplicate top-level list name: '' @ nameOr (batchTopName (lines ! i))\<rparr>)
       (filter (alreadyRecorded batchTopName lines) [0..<?h])"
      using bd wd by simp
    show "b_listNameIndex (analyzePerchance_state lines) n = Some j \<longleftrightarrow>
        j < ?h \<and> batchTopName (lines ! j) = Some n \<and> \<not> alreadyRecorded batchTopName lines j"
      by (rule br)
  next
    assume cd: "checkDuplicates cfg"
    show "filter (\<lambda>d. d_code d = Some ''perchance.duplicateListName'') (analyzeDocument lines cfg) =
          map (\<lambda>i. createDiagnostic i 0 (length (nameOr (docTopName (lines ! i))))
                     ''Duplicate top-level list name.'' ''perchance.duplicateListName'' None)
            (filter (alreadyRecorded docTopName lines) [0..<?h])"
      using id[OF cd] dd by simp
    show "listNameIndex (analyzeDocument_state lines cfg) n = Some j \<longleftrightarrow>
             j < ?h \<and> docTopName (lines ! j) = Some n \<and> \<not> alreadyRecorded docTopName lines j"
      by (rule ir[OF cd])
  next
    assume ex: "filter (\<lambda>i. topLevelLine (lines ! i)) [0..<?h] = [0, 5]
        \<and> lines ! 0 = ''foo'' \<and> lines ! 5 = ''foo''"
    from example[OF ex]
    show "filter (\<lambda>w. w_code w = ''duplicate-list'') (analyzePerchance_lines lines) =
          [\<lparr>w_line = 6, w_code = ''duplicate-list'',
            w_message = ''Duplicate top-level list name: foo''\<rparr>]"
      and "b_listNameIndex (analyzePerchance_state lines) ''foo'' = Some 0"
      by simp_all
    assume cd: "checkDuplicates cfg"
    from example[OF ex] cd
    show "filter (\<lambda>d. d_code d = Some ''perchance.duplicateListName'')
               (analyzeDocument lines cfg) =
               [\<lparr>d_line = 5, d_start = 0, d_end = 3,
                 d_message = ''Duplicate top-level list name.'',
                 d_code = Some ''perchance.duplicateListName'', d_data = None\<rparr>]"
      and "listNameIndex (analyzeDocument_state lines cfg) ''foo'' = Some 0"
      by simp_all
  qed
qed

section \<open>Properties of the definition map\<close>

lemma collectListDefinitions_line_declared:
  "collectListDefinitions_line i line defs =
     (case declaredName line of None \<Rightarrow> defs | Some n \<Rightarrow> defs(n \<mapsto> i))"
  unfolding collectListDefinitions_line_def declaredName_def
  by (simp add: Let_def split: option.splits)

lemma collectListDefinitions_reduced_line_declared:
  "collectListDefinitions_reduced_line i line defs =
     (case declaredName_reduced line of None \<Rightarrow> defs | Some n \<Rightarrow> defs(n \<mapsto> i))"
  unfolding collectListDefinitions_reduced_line_def declaredName_reduced_def
  by (simp add: Let_def split: option.splits)

lemma last_recorded_generic:
  fixes f :: "nat \<Rightarrow> (string \<rightharpoonup> nat)"
  assumes f0: "f 0 = Map.empty"
    and fS: "\<And>k. k < N \<Longrightarrow>
          f (Suc k) = (case nameOf (lines ! k) of None \<Rightarrow> f k | Some n \<Rightarrow> (f k)(n \<mapsto> k))"
    and "k \<le> N"
  shows "f k n = Some j \<longleftrightarrow> lastDeclaration nameOf lines k n j"
  using assms(3)
proof (induction k arbitrary: n j)
  case 0
  show ?case using f0 by (simp add: lastDeclaration_def)
next
  case (Suc k)
  then have kN: "k < N" by simp
  note IH = Suc.IH[OF less_imp_le[OF kN]]
  show ?case
  proof (cases "nameOf (lines ! k) = Some n")
    case True
    then have "f (Suc k) n = Some k" using fS[OF kN] by simp
    moreover have "lastDeclaration nameOf lines (Suc k) n j \<longleftrightarrow> j = k"
    proof
      assume l: "lastDeclaration nameOf lines (Suc k) n j"
      show "j = k"
      proof (rule ccontr)
        assume "j \<noteq> k"
        with l have "j < k \<and> k < Suc k" by (simp add: lastDeclaration_def)
        with l have "nameOf (lines ! k) \<noteq> Some n" unfolding lastDeclaration_def by blast
        with True show False by simp
      qed
    next
      assume "j = k"
      with True show "lastDeclaration nameOf lines (Suc k) n j"
        by (auto simp: lastDeclaration_def)
    qed
    ultimately show ?thesis by auto
  next
    case False
    then have "f (Suc k) n = f k n"
      using fS[OF kN] by (cases "nameOf (lines ! k)") auto
    moreover have "lastDeclaration nameOf lines (Suc k) n j \<longleftrightarrow> lastDeclaration nameOf lines k n j"
    proof
      assume l: "lastDeclaration nameOf lines (Suc k) n j"
      then have "j \<noteq> k" using False by (auto simp: lastDeclaration_def)
      with l show "lastDeclaration nameOf lines k n j"
        unfolding lastDeclaration_def by auto
    next
      assume l: "lastDeclaration nameOf lines k n j"
      have "nameOf (lines ! j') \<noteq> Some n" if "j < j' \<and> j' < Suc k" for j'
      proof (cases "j' = k")
        case True
        with False show ?thesis by simp
      next
        case ne: False
        with that have "j < j' \<and> j' < k" by simp
        with l show ?thesis unfolding lastDeclaration_def by blast
      qed
      with l show "lastDeclaration nameOf lines (Suc k) n j"
        unfolding lastDeclaration_def by auto
    qed
    ultimately show ?thesis using IH[of n j] by simp
  qed
qed

lemma collectListDefinitions_loop_snoc:
  "collectListDefinitions_loop k (xs @ [x]) defs =
     collectListDefinitions_line (k + length xs) x (collectListDefinitions_loop k xs defs)"
  by (induction xs arbitrary: k defs) simp_all

lemma collectListDefinitions_reduced_loop_snoc:
  "collectListDefinitions_reduced_loop k (xs @ [x]) defs =
     collectListDefinitions_reduced_line (k + length xs) x
       (collectListDefinitions_reduced_loop k xs defs)"
  by (induction xs arbitrary: k defs) simp_all

lemma collectListDefinitions_loop_last:
  assumes "k \<le> length lines"
  shows "collectListDefinitions_loop 0 (take k lines) Map.empty n = Some j
         \<longleftrightarrow> lastDeclaration declaredName lines k n j"
proof (rule last_recorded_generic[where f = "\<lambda>k. collectListDefinitions_loop 0 (take k lines) Map.empty"
      and N = "length lines"])
  show "collectListDefinitions_loop 0 (take 0 lines) Map.empty = Map.empty" by simp
  show "k \<le> length lines" by (rule assms)
  fix k assume "k < length lines"
  then show "collectListDefinitions_loop 0 (take (Suc k) lines) Map.empty =
      (case declaredName (lines ! k) of
         None \<Rightarrow> collectListDefinitions_loop 0 (take k lines) Map.empty
       | Some n \<Rightarrow> (collectListDefinitions_loop 0 (take k lines) Map.empty)(n \<mapsto> k))"
    by (simp add: take_Suc_conv_app_nth collectListDefinitions_loop_snoc
        collectListDefinitions_line_declared)
qed

lemma collectListDefinitions_reduced_loop_last:
  assumes "k \<le> length lines"
  shows "collectListDefinitions_reduced_loop 0 (take k lines) Map.empty n = Some j
         \<longleftrightarrow> lastDeclaration declaredName_reduced lines k n j"
proof (rule last_recorded_generic[where f = "\<lambda>k. collectListDefinitions_reduced_loop 0 (take k lines) Map.empty"
      and N = "length lines"])
  show "collectListDefinitions_reduced_loop 0 (take 0 lines) Map.empty = Map.empty" by simp
  show "k \<le> length lines" by (rule assms)
  fix k assume "k < length lines"
  then show "collectListDefinitions_reduced_loop 0 (take (Suc k) lines) Map.empty =
      (case declaredName_reduced (lines ! k) of
         None \<Rightarrow> collectListDefinitions_reduced_loop 0 (take k lines) Map.empty
       | Some n \<Rightarrow> (collectListDefinitions_reduced_loop 0 (take k lines) Map.empty)(n \<mapsto> k))"
    by (simp add: take_Suc_conv_app_nth collectListDefinitions_reduced_loop_snoc
        collectListDefinitions_reduced_line_declared)
qed

lemma LIST_SHORTHAND_REGEX_with_no_dollar:
  "LIST_SHORTHAND_REGEX_with part s = Some n \<Longrightarrow> \<not> startsWith n ''$''"
  unfolding LIST_SHORTHAND_REGEX_with_def
  by (auto simp: startsWith_def identStart_def isAlpha_def split: list.splits if_splits)

lemma declaredName_no_dollar: "declaredName line = Some n \<Longrightarrow> \<not> startsWith n ''$''"
  unfolding declaredName_def Let_def LIST_SHORTHAND_REGEX_def
  by (auto split: if_splits option.splits dest: LIST_SHORTHAND_REGEX_with_no_dollar)

lemma declaredName_reduced_no_dollar:
  "declaredName_reduced line = Some n \<Longrightarrow> \<not> startsWith n ''$''"
  unfolding declaredName_reduced_def Let_def
  by (auto split: if_splits option.splits dest: LIST_SHORTHAND_REGEX_with_no_dollar)

text \<open>
  Claim C2 (as amended). A name is in the map returned by \<^verbatim>\<open>collectListDefinitions\<close> of the
  full extension exactly when some line before the markup boundary declares it, and the map
  holds the index of the last such line. A line declares a name when it is not blank and its
  trimmed text starts with neither \<open>//\<close> nor \<open><\<close>, and either it does not start with white space
  and the name is the result of \<^verbatim>\<open>parseListName\<close>, or it starts with white space and its
  trimmed text is a block header or a shorthand assignment of that name; the name never starts
  with \<open>$\<close>. In the reduced \<^verbatim>\<open>src/extension.js\<close> every line of the document is considered,
  indented or not, and the map again holds the last declaring line.
\<close>

theorem collectListDefinitions_last_declaration_wins:
  "(collectListDefinitions document n = Some j \<longleftrightarrow>
      lastDeclaration declaredName document (findHtmlStart document) n j)
   \<and> (collectListDefinitions_reduced document n = Some j \<longleftrightarrow>
      lastDeclaration declaredName_reduced document (length document) n j)
   \<and> (declaredName line = Some n \<longrightarrow>
        \<not> startsWith n ''$'' \<and> trim line \<noteq> [] \<and> \<not> startsWith (trim line) ''//''
        \<and> \<not> startsWith (trim line) ''<''
        \<and> (if (case line of [] \<Rightarrow> False | c # cs \<Rightarrow> isWhiteSpace c)
           then LIST_BLOCK_HEADER_REGEX (trim line) = Some n \<or> LIST_SHORTHAND_REGEX (trim line) = Some n
           else parseListName (trim line) = Some n))
   \<and> (declaredName_reduced line = Some n \<longrightarrow>
        \<not> startsWith n ''$'' \<and> trim line \<noteq> [] \<and> \<not> startsWith (trim line) ''//''
        \<and> \<not> startsWith (trim line) ''<''
        \<and> (LIST_BLOCK_HEADER_REGEX_with isWordChar (trim line) = Some n
           \<or> LIST_SHORTHAND_REGEX_with isWordChar (trim line) = Some n))"
proof -
  have m: "min (length document) (findHtmlStart document) = findHtmlStart document"
    using findHtmlStart_le[of document] by simp
  have full: "collectListDefinitions document n = Some j \<longleftrightarrow>
      lastDeclaration declaredName document (findHtmlStart document) n j"
    unfolding collectListDefinitions_def Let_def m
    by (rule collectListDefinitions_loop_last) (rule findHtmlStart_le)
  have reduced: "collectListDefinitions_reduced document n = Some j \<longleftrightarrow>
      lastDeclaration declaredName_reduced document (length document) n j"
    unfolding collectListDefinitions_reduced_def
    using collectListDefinitions_reduced_loop_last[of "length document" document n j] by simp
  have d1: "declaredName line = Some n \<longrightarrow>
        \<not> startsWith n ''$'' \<and> trim line \<noteq> [] \<and> \<not> startsWith (trim line) ''//''
        \<and> \<not> startsWith (trim line) ''<''
        \<and> (if (case line of [] \<Rightarrow> False | c # cs \<Rightarrow> isWhiteSpace c)
           then LIST_BLOCK_HEADER_REGEX (trim line) = Some n \<or> LIST_SHORTHAND_REGEX (trim line) = Some n
           else parseListName (trim line) = Some n)"
  proof
    assume d: "declaredName line = Some n"
    then have "\<not> startsWith n ''$''" by (rule declaredName_no_dollar)
    moreover from d have "trim line \<noteq> [] \<and> \<not> startsWith (trim line) ''//''
        \<and> \<not> startsWith (trim line) ''<''"
      unfolding declaredName_def Let_def by (auto split: if_splits)
    moreover from d have "if (case line of [] \<Rightarrow> False | c # cs \<Rightarrow> isWhiteSpace c)
           then LIST_BLOCK_HEADER_REGEX (trim line) = Some n \<or> LIST_SHORTHAND_REGEX (trim line) = Some n
           else parseListName (trim line) = Some n"
      unfolding declaredName_def Let_def by (auto split: if_splits option.splits)
    ultimately show "\<not> startsWith n ''$'' \<and> trim line \<noteq> [] \<and> \<not> startsWith (trim line) ''//''
        \<and> \<not> startsWith (trim line) ''<''
        \<and> (if (case line of [] \<Rightarrow> False | c # cs \<Rightarrow> isWhiteSpace c)
           then LIST_BLOCK_HEADER_REGEX (trim line) = Some n \<or> LIST_SHORTHAND_REGEX (trim line) = Some n
           else parseListName (trim line) = Some n)"
      by simp
  qed
  have d2: "declaredName_reduced line = Some n \<longrightarrow>
        \<not> startsWith n ''$'' \<and> trim line \<noteq> [] \<and> \<not> startsWith (trim line) ''//''
        \<and> \<not> startsWith (trim line) ''<''
        \<and> (LIST_BLOCK_HEADER_REGEX_with isWordChar (trim line) = Some n
           \<or> LIST_SHORTHAND_REGEX_with isWordChar (trim line) = Some n)"
  proof
    assume d: "declaredName_reduced line = Some n"
    then have "\<not> startsWith n ''$''" by (rule declaredName_reduced_no_dollar)
    moreover from d have "trim line \<noteq> [] \<and> \<not> startsWith (trim line) ''//''
        \<and> \<not> startsWith (trim line) ''<''"
      unfolding declaredName_reduced_def Let_def by (auto split: if_splits)
    moreover from d have "LIST_BLOCK_HEADER_REGEX_with isWordChar (trim line) = Some n
           \<or> LIST_SHORTHAND_REGEX_with isWordChar (trim line) = Some n"
      unfolding declaredName_reduced_def Let_def by (auto split: if_splits option.splits)
    ultimately show "\<not> startsWith n ''$'' \<and> trim line \<noteq> [] \<and> \<not> startsWith (trim line) ''//''
        \<and> \<not> startsWith (trim line) ''<''
        \<and> (LIST_BLOCK_HEADER_REGEX_with isWordChar (trim line) = Some n
           \<or> LIST_SHORTHAND_REGEX_with isWordChar (trim line) = Some n)"
      by simp
  qed
  show ?thesis
    by (rule conjI[OF full conjI[OF reduced conjI[OF d1 d2]]])
qed

theorem collectListDefinitions_last_declaration_wins_witness:
  "collectListDefinitions [''foo'', ''  bar'', ''foo = 1'', '''', ''<p>'', ''baz''] ''foo'' = Some 2
   \<and> lastDeclaration declaredName [''foo'', ''  bar'', ''foo = 1'', '''', ''<p>'', ''baz'']
        (findHtmlStart [''foo'', ''  bar'', ''foo = 1'', '''', ''<p>'', ''baz'']) ''foo'' 2
   \<and> declaredName ''foo = 1'' = Some ''foo''
   \<and> parseListName (trim ''foo = 1'') = Some ''foo''"
proof -
  let ?doc = "[''foo'', ''  bar'', ''foo = 1'', '''', ''<p>'', ''baz'']"
  have e: "collectListDefinitions ?doc ''foo'' = Some 2" by code_simp
  have d: "declaredName ''foo = 1'' = Some ''foo''" by code_simp
  note T = collectListDefinitions_last_declaration_wins[of ?doc "''foo''" 2 "''foo = 1''"]
  from T[THEN conjunct1] e
  have l: "lastDeclaration declaredName ?doc (findHtmlStart ?doc) ''foo'' 2" by (rule iffD1)
  from T[THEN conjunct2, THEN conjunct2, THEN conjunct1, THEN mp, OF d]
  have "if (case ''foo = 1'' of [] \<Rightarrow> False | c # cs \<Rightarrow> isWhiteSpace c)
        then LIST_BLOCK_HEADER_REGEX (trim ''foo = 1'') = Some ''foo''
             \<or> LIST_SHORTHAND_REGEX (trim ''foo = 1'') = Some ''foo''
        else parseListName (trim ''foo = 1'') = Some ''foo''"
    by (elim conjE)
  then have p: "parseListName (trim ''foo = 1'') = Some ''foo''"
    by (simp add: isWhiteSpace_def)
  show ?thesis
    by (rule conjI[OF e conjI[OF l conjI[OF d p]]])
qed

text \<open>
  The claim as stated fails: a name declared only on an indented line is in the map, a later
  declaration replaces the line of an earlier one, a top-level line that is neither a header
  nor a shorthand assignment puts its first word into the map, and the reduced extension has
  no markup boundary.
\<close>

theorem collectListDefinitions_first_top_level_counterexample:
  "collectListDefinitions [''foo'', ''  bar'', ''foo''] ''bar'' = Some 1
   \<and> leadingIndent ([''foo'', ''  bar'', ''foo''] ! 1) = ''  ''
   \<and> collectListDefinitions [''foo'', ''  bar'', ''foo''] ''foo'' = Some 2
   \<and> collectListDefinitions [''hello world''] ''hello'' = Some 0
   \<and> LIST_BLOCK_HEADER_REGEX ''hello world'' = None
   \<and> LIST_SHORTHAND_REGEX ''hello world'' = None
   \<and> findHtmlStart ['''', ''<p>'', ''x''] = 1
   \<and> collectListDefinitions_reduced ['''', ''<p>'', ''x''] ''x'' = Some 2"
  by code_simp

section \<open>The duplicate rule and the definition map\<close>

lemma collectListDefinitions_last:
  "collectListDefinitions document n = Some j \<longleftrightarrow>
     lastDeclaration declaredName document (findHtmlStart document) n j"
proof -
  have m: "min (length document) (findHtmlStart document) = findHtmlStart document"
    using findHtmlStart_le[of document] by simp
  show ?thesis
    unfolding collectListDefinitions_def Let_def m
    by (rule collectListDefinitions_loop_last) (rule findHtmlStart_le)
qed

lemma last_declaration_exists:
  "\<exists>i < k. nameOf (lines ! i) = Some n \<Longrightarrow> \<exists>j. lastDeclaration nameOf lines k n j"
proof (induction k)
  case 0
  then show ?case by simp
next
  case (Suc k)
  show ?case
  proof (cases "nameOf (lines ! k) = Some n")
    case True
    then have "lastDeclaration nameOf lines (Suc k) n k"
      by (auto simp: lastDeclaration_def)
    then show ?thesis ..
  next
    case False
    with Suc.prems have "\<exists>i < k. nameOf (lines ! i) = Some n"
      by (metis less_Suc_eq)
    from Suc.IH[OF this] obtain j where l: "lastDeclaration nameOf lines k n j" ..
    have "nameOf (lines ! j') \<noteq> Some n" if "j < j' \<and> j' < Suc k" for j'
    proof (cases "j' = k")
      case True
      with False show ?thesis by simp
    next
      case ne: False
      with that have "j < j' \<and> j' < k" by simp
      with l show ?thesis unfolding lastDeclaration_def by blast
    qed
    with l have "lastDeclaration nameOf lines (Suc k) n j"
      unfolding lastDeclaration_def by auto
    then show ?thesis ..
  qed
qed

lemma foo_definitions_entry:
  assumes top: "filter (\<lambda>i. topLevelLine (lines ! i)) [0..<findHtmlStart lines] = [0, 5]"
    and l5: "lines ! 5 = ''foo''"
  shows "\<exists>j. 5 \<le> j \<and> j < findHtmlStart lines \<and> collectListDefinitions lines ''foo'' = Some j"
proof -
  let ?h = "findHtmlStart lines"
  from only_top_level_lines(1)[OF top] have h5: "5 < ?h" .
  have "declaredName ''foo'' = Some ''foo''" by code_simp
  with l5 have d5: "declaredName (lines ! 5) = Some ''foo''" by simp
  with h5 have "\<exists>i < ?h. declaredName (lines ! i) = Some ''foo''" by blast
  from last_declaration_exists[OF this]
  obtain j where l: "lastDeclaration declaredName lines ?h ''foo'' j" ..
  then have c: "collectListDefinitions lines ''foo'' = Some j"
    by (simp add: collectListDefinitions_last)
  from l have jh: "j < ?h" by (simp add: lastDeclaration_def)
  have "5 \<le> j"
  proof (rule ccontr)
    assume "\<not> 5 \<le> j"
    with h5 have "j < 5 \<and> 5 < ?h" by simp
    with l have "declaredName (lines ! 5) \<noteq> Some ''foo''"
      unfolding lastDeclaration_def by blast
    with d5 show False by simp
  qed
  with jh c show ?thesis by blast
qed

lemma batchTopName_no_dollar: "batchTopName line = Some n \<Longrightarrow> \<not> startsWith n ''$''"
  unfolding batchTopName_def by (auto split: if_splits option.splits)

text \<open>
  Claim C6 (as amended). While the lines before the markup boundary are scanned, the duplicate
  rule emits one warning at each top-level line (no indentation, not blank, not a comment) whose
  name the rule has recorded at an earlier line, and records a name at its first occurrence
  without flagging it; the interactive finding spans the name's length from column 0. The batch
  script neither records nor flags a name that starts with \<open>$\<close>; the interactive analyzer records
  and flags it: of two lines \<open>$output\<close> the batch script reports nothing and the interactive
  analyzer flags the second. When the only top-level lines are \<open>foo\<close> at index 0 and \<open>foo\<close> at index 5, there is
  exactly one duplicate finding, at index 5 (line number 6 in the batch report), naming \<open>foo\<close>,
  and the rule's own record maps \<open>foo\<close> to index 0; the definitions map of
  \<^verbatim>\<open>collectListDefinitions\<close> maps \<open>foo\<close> to its last declaring line, which is index 5 or later
  and never index 0.
\<close>

theorem duplicate_findings_rule_record_and_definitions:
  "filter (\<lambda>w. w_code w = ''duplicate-list'') (analyzePerchance_lines lines) =
     map (\<lambda>i. \<lparr>w_line = i + 1, w_code = ''duplicate-list'',
                w_message = ''Duplicate top-level list name: '' @ nameOr (batchTopName (lines ! i))\<rparr>)
       (filter (alreadyRecorded batchTopName lines) [0..<findHtmlStart lines])
   \<and> (b_listNameIndex (analyzePerchance_state lines) n = Some j \<longleftrightarrow>
        j < findHtmlStart lines \<and> batchTopName (lines ! j) = Some n
        \<and> \<not> alreadyRecorded batchTopName lines j)
   \<and> (checkDuplicates cfg \<longrightarrow>
        filter (\<lambda>d. d_code d = Some ''perchance.duplicateListName'') (analyzeDocument lines cfg) =
          map (\<lambda>i. createDiagnostic i 0 (length (nameOr (docTopName (lines ! i))))
                     ''Duplicate top-level list name.'' ''perchance.duplicateListName'' None)
            (filter (alreadyRecorded docTopName lines) [0..<findHtmlStart lines])
        \<and> (listNameIndex (analyzeDocument_state lines cfg) n = Some j \<longleftrightarrow>
             j < findHtmlStart lines \<and> docTopName (lines ! j) = Some n
             \<and> \<not> alreadyRecorded docTopName lines j))
   \<and> (filter (\<lambda>i. topLevelLine (lines ! i)) [0..<findHtmlStart lines] = [0, 5]
        \<and> lines ! 0 = ''foo'' \<and> lines ! 5 = ''foo'' \<longrightarrow>
        filter (\<lambda>w. w_code w = ''duplicate-list'') (analyzePerchance_lines lines) =
          [\<lparr>w_line = 6, w_code = ''duplicate-list'',
            w_message = ''Duplicate top-level list name: foo''\<rparr>]
        \<and> b_listNameIndex (analyzePerchance_state lines) ''foo'' = Some 0
        \<and> (checkDuplicates cfg \<longrightarrow>
             filter (\<lambda>d. d_code d = Some ''perchance.duplicateListName'')
               (analyzeDocument lines cfg) =
               [\<lparr>d_line = 5, d_start = 0, d_end = 3,
                 d_message = ''Duplicate top-level list name.'',
                 d_code = Some ''perchance.duplicateListName'', d_data = None\<rparr>]
             \<and> listNameIndex (analyzeDocument_state lines cfg) ''foo'' = Some 0))
   \<and> (filter (\<lambda>i. topLevelLine (lines ! i)) [0..<findHtmlStart lines] = [0, 5]
        \<and> lines ! 0 = ''foo'' \<and> lines ! 5 = ''foo'' \<longrightarrow>
        (\<exists>k. 5 \<le> k \<and> k < findHtmlStart lines \<and> collectListDefinitions lines ''foo'' = Some k)
        \<and> collectListDefinitions lines ''foo'' \<noteq> Some 0)
   \<and> (batchTopName line = Some n \<longrightarrow> \<not> startsWith n ''$'')
   \<and> batchTopName ''$output'' = None
   \<and> docTopName ''$output'' = Some ''$output''
   \<and> filter (\<lambda>w. w_code w = ''duplicate-list'')
        (analyzePerchance_lines [''$output'', ''$output'']) = []
   \<and> filter (\<lambda>d. d_code d = Some ''perchance.duplicateListName'')
        (analyzeDocument [''$output'', ''$output'']
           \<lparr>checkDuplicates = True, checkIndentation = True, checkIfElseEquals = True\<rparr>)
      = [\<lparr>d_line = 1, d_start = 0, d_end = 7,
          d_message = ''Duplicate top-level list name.'',
          d_code = Some ''perchance.duplicateListName'', d_data = None\<rparr>]"
proof -
  note R = duplicate_rule_findings_and_record[of lines n j cfg]
  have defs: "filter (\<lambda>i. topLevelLine (lines ! i)) [0..<findHtmlStart lines] = [0, 5]
        \<and> lines ! 0 = ''foo'' \<and> lines ! 5 = ''foo'' \<longrightarrow>
        (\<exists>k. 5 \<le> k \<and> k < findHtmlStart lines \<and> collectListDefinitions lines ''foo'' = Some k)
        \<and> collectListDefinitions lines ''foo'' \<noteq> Some 0"
  proof
    assume ex: "filter (\<lambda>i. topLevelLine (lines ! i)) [0..<findHtmlStart lines] = [0, 5]
        \<and> lines ! 0 = ''foo'' \<and> lines ! 5 = ''foo''"
    then have e: "\<exists>k. 5 \<le> k \<and> k < findHtmlStart lines
        \<and> collectListDefinitions lines ''foo'' = Some k"
      by (intro foo_definitions_entry) simp_all
    then obtain k where "5 \<le> k" "collectListDefinitions lines ''foo'' = Some k" by blast
    then have "collectListDefinitions lines ''foo'' \<noteq> Some 0" by simp
    with e show "(\<exists>k. 5 \<le> k \<and> k < findHtmlStart lines
        \<and> collectListDefinitions lines ''foo'' = Some k)
        \<and> collectListDefinitions lines ''foo'' \<noteq> Some 0" by simp
  qed
  have nodollar: "batchTopName line = Some n \<longrightarrow> \<not> startsWith n ''$''"
    using batchTopName_no_dollar by blast
  have b: "batchTopName ''$output'' = None" by code_simp
  have d: "docTopName ''$output'' = Some ''$output''" by code_simp
  have bo: "filter (\<lambda>w. w_code w = ''duplicate-list'')
        (analyzePerchance_lines [''$output'', ''$output'']) = []" by code_simp
  have io: "filter (\<lambda>d. d_code d = Some ''perchance.duplicateListName'')
        (analyzeDocument [''$output'', ''$output'']
           \<lparr>checkDuplicates = True, checkIndentation = True, checkIfElseEquals = True\<rparr>)
      = [\<lparr>d_line = 1, d_start = 0, d_end = 7,
          d_message = ''Duplicate top-level list name.'',
          d_code = Some ''perchance.duplicateListName'', d_data = None\<rparr>]" by code_simp
  show ?thesis
    by (rule conjI[OF R[THEN conjunct1]
          conjI[OF R[THEN conjunct2, THEN conjunct1]
            conjI[OF R[THEN conjunct2, THEN conjunct2, THEN conjunct1]
              conjI[OF R[THEN conjunct2, THEN conjunct2, THEN conjunct2]
                conjI[OF defs conjI[OF nodollar conjI[OF b conjI[OF d conjI[OF bo io]]]]]]]]])
qed

theorem duplicate_findings_rule_record_and_definitions_witness:
  "checkDuplicates \<lparr>checkDuplicates = True, checkIndentation = True, checkIfElseEquals = True\<rparr>
   \<and> filter (\<lambda>i. topLevelLine ([''foo'', [TAB] @ ''apple'', [TAB] @ ''pear'', '''', ''// c'', ''foo''] ! i))
        [0..<findHtmlStart [''foo'', [TAB] @ ''apple'', [TAB] @ ''pear'', '''', ''// c'', ''foo'']] = [0, 5]
   \<and> filter (\<lambda>w. w_code w = ''duplicate-list'')
        (analyzePerchance_lines [''foo'', [TAB] @ ''apple'', [TAB] @ ''pear'', '''', ''// c'', ''foo'']) =
          [\<lparr>w_line = 6, w_code = ''duplicate-list'',
            w_message = ''Duplicate top-level list name: foo''\<rparr>]
   \<and> b_listNameIndex
        (analyzePerchance_state [''foo'', [TAB] @ ''apple'', [TAB] @ ''pear'', '''', ''// c'', ''foo''])
        ''foo'' = Some 0
   \<and> listNameIndex
        (analyzeDocument_state [''foo'', [TAB] @ ''apple'', [TAB] @ ''pear'', '''', ''// c'', ''foo'']
           \<lparr>checkDuplicates = True, checkIndentation = True, checkIfElseEquals = True\<rparr>)
        ''foo'' = Some 0
   \<and> collectListDefinitions [''foo'', [TAB] @ ''apple'', [TAB] @ ''pear'', '''', ''// c'', ''foo'']
        ''foo'' = Some 5"
proof -
  let ?doc = "[''foo'', [TAB] @ ''apple'', [TAB] @ ''pear'', '''', ''// c'', ''foo'']"
  let ?cfg = "\<lparr>checkDuplicates = True, checkIndentation = True, checkIfElseEquals = True\<rparr>"
  have cd: "checkDuplicates ?cfg" by simp
  have top: "filter (\<lambda>i. topLevelLine (?doc ! i)) [0..<findHtmlStart ?doc] = [0, 5]"
    by code_simp
  have h: "findHtmlStart ?doc = 6" by code_simp
  have l: "?doc ! 0 = ''foo''" "?doc ! 5 = ''foo''" by simp_all
  note hyp = conjI[OF top conjI[OF l(1) l(2)]]
  note T = duplicate_findings_rule_record_and_definitions[of ?doc "''foo''" 0 ?cfg "''$output''"]
  note E = T[THEN conjunct2, THEN conjunct2, THEN conjunct2, THEN conjunct1, THEN mp, OF hyp]
  note I = E[THEN conjunct2, THEN conjunct2, THEN mp, OF cd]
  note w1 = E[THEN conjunct1] and w2 = E[THEN conjunct2, THEN conjunct1]
    and w3 = I[THEN conjunct2]
  note D = T[THEN conjunct2, THEN conjunct2, THEN conjunct2, THEN conjunct2, THEN conjunct1,
             THEN mp, OF hyp, THEN conjunct1]
  from D obtain k where k: "5 \<le> k" "k < findHtmlStart ?doc"
    and c: "collectListDefinitions ?doc ''foo'' = Some k" by blast
  from k h have "k = 5" by simp
  with c have w4: "collectListDefinitions ?doc ''foo'' = Some 5" by simp
  show ?thesis
    by (rule conjI[OF cd conjI[OF top conjI[OF w1 conjI[OF w2 conjI[OF w3 w4]]]]])
qed

text \<open>
  The claim as stated fails in its last clause. In the document of the example the only
  top-level lines are \<open>foo\<close> at index 0 and \<open>foo\<close> at index 5, and the definitions map holds index
  5 for \<open>foo\<close>: the later declaration has replaced the first.
\<close>

theorem duplicate_example_definitions_map_counterexample:
  "map topLevelLine [''foo'', [TAB] @ ''apple'', [TAB] @ ''pear'', '''', ''// c'', ''foo'']
     = [True, False, False, False, False, True]
   \<and> findHtmlStart [''foo'', [TAB] @ ''apple'', [TAB] @ ''pear'', '''', ''// c'', ''foo''] = 6
   \<and> collectListDefinitions [''foo'', [TAB] @ ''apple'', [TAB] @ ''pear'', '''', ''// c'', ''foo'']
        ''foo'' = Some 5
   \<and> collectListDefinitions [''foo'', [TAB] @ ''apple'', [TAB] @ ''pear'', '''', ''// c'', ''foo'']
        ''foo'' \<noteq> Some 0"
  by code_simp

section \<open>Properties of the function-header test\<close>

lemma isWhiteSpace_not_word: "isWhiteSpace c \<Longrightarrow> \<not> isWordChar c"
  by (auto simp: isWhiteSpace_def isWordChar_def isAlpha_def isDigit_def Let_def)

lemma arrowAtEnd_scan_shape:
  "arrowAtEnd_scan prev s \<Longrightarrow>
     \<exists>a r. s = a @ ''=>'' @ r \<and> (\<forall>x \<in> set r. isWhiteSpace x)
       \<and> (case (if a = [] then prev else Some (last a)) of
            None \<Rightarrow> False | Some c \<Rightarrow> isWordChar c)"
proof (induction s arbitrary: prev)
  case Nil
  then show ?case by simp
next
  case (Cons c cs)
  show ?case
  proof (cases "arrowAtEnd_scan (Some c) cs")
    case True
    from Cons.IH[OF this] obtain a r where
      s: "cs = a @ ''=>'' @ r" and r: "\<forall>x \<in> set r. isWhiteSpace x"
      and w: "case (if a = [] then Some c else Some (last a)) of
                None \<Rightarrow> False | Some c \<Rightarrow> isWordChar c" by blast
    from s have "c # cs = (c # a) @ ''=>'' @ r" by simp
    moreover from w have "case (if c # a = [] then prev else Some (last (c # a))) of
                None \<Rightarrow> False | Some c \<Rightarrow> isWordChar c" by (cases "a = []") simp_all
    ultimately show ?thesis using r by blast
  next
    case False
    with Cons.prems have b: "wordBoundary prev (Some c)"
      and st: "startsWith (c # cs) ''=>''"
      and r: "\<forall>x \<in> set (drop 1 cs). isWhiteSpace x" by simp_all
    from st have c: "c = CHR ''=''" and cs: "take 1 cs = ''>''"
      by (simp_all add: startsWith_def)
    have "cs = take 1 cs @ drop 1 cs" by simp
    with cs have "cs = ''>'' @ drop 1 cs" by simp
    with c have s: "c # cs = [] @ ''=>'' @ drop 1 cs" by simp
    have "\<not> isWordChar CHR ''=''" by code_simp
    with b c have "case prev of None \<Rightarrow> False | Some c \<Rightarrow> isWordChar c"
      by (simp add: wordBoundary_def)
    then have "case (if ([]::string) = [] then prev else Some (last [])) of
                None \<Rightarrow> False | Some c \<Rightarrow> isWordChar c" by simp
    with s r show ?thesis by blast
  qed
qed

lemma arrowAtEnd_scan_found:
  "(\<forall>x \<in> set r. isWhiteSpace x) \<Longrightarrow>
   (case (if a = [] then prev else Some (last a)) of None \<Rightarrow> False | Some c \<Rightarrow> isWordChar c) \<Longrightarrow>
   arrowAtEnd_scan prev (a @ ''=>'' @ r)"
proof (induction a arbitrary: prev)
  case Nil
  have "\<not> isWordChar CHR ''=''" by code_simp
  with Nil show ?case by (simp add: wordBoundary_def startsWith_def)
next
  case (Cons c a)
  from Cons.prems(2) have "case (if a = [] then Some c else Some (last a)) of
      None \<Rightarrow> False | Some c \<Rightarrow> isWordChar c" by (cases "a = []") simp_all
  from Cons.IH[OF Cons.prems(1) this] show ?case by simp
qed

lemma last_occurrence_unique:
  assumes "x \<notin> set u" "x \<notin> set v" "a @ x # u = b @ x # v"
  shows "a = b"
proof -
  have 1: "dropWhile (\<lambda>y. y \<noteq> x) (rev u @ x # rev a) = x # rev a"
    using assms(1) by (subst dropWhile_append2) auto
  have 2: "dropWhile (\<lambda>y. y \<noteq> x) (rev v @ x # rev b) = x # rev b"
    using assms(2) by (subst dropWhile_append2) auto
  from assms(3) have "rev (a @ x # u) = rev (b @ x # v)" by (rule arg_cong)
  then have "rev u @ x # rev a = rev v @ x # rev b" by (simp only: rev_append rev.simps append_assoc append_Cons append_Nil)
  with 1 2 have "x # rev a = x # rev b" by (simp only:)
  then show ?thesis by simp
qed

lemma last_arrow_unique:
  assumes "a @ ''=>'' @ r = b @ ''=>'' @ r'"
    and "\<forall>x \<in> set r. isWhiteSpace x" and "\<forall>x \<in> set r'. isWhiteSpace x"
  shows "a = b"
proof -
  have ne: "\<not> isWhiteSpace CHR ''=''" by code_simp
  from assms(2) ne have "CHR ''='' \<notin> set r" by blast
  then have 1: "CHR ''='' \<notin> set (''>'' @ r)" by simp
  from assms(3) ne have "CHR ''='' \<notin> set r'" by blast
  then have 2: "CHR ''='' \<notin> set (''>'' @ r')" by simp
  from assms(1) have "a @ CHR ''='' # (''>'' @ r) = b @ CHR ''='' # (''>'' @ r')" by simp
  from last_occurrence_unique[OF 1 2 this] show ?thesis .
qed

lemma closed_header_not_function_start:
  assumes W: "\<forall>x \<in> set W. isWhiteSpace x" and r: "\<forall>x \<in> set r. isWhiteSpace x"
  shows "\<not> arrowAtEnd_scan prev (A @ '')'' @ W @ ''=>'' @ r)"
proof
  assume "arrowAtEnd_scan prev (A @ '')'' @ W @ ''=>'' @ r)"
  from arrowAtEnd_scan_shape[OF this] obtain a r' where
    s: "A @ '')'' @ W @ ''=>'' @ r = a @ ''=>'' @ r'" and r': "\<forall>x \<in> set r'. isWhiteSpace x"
    and w: "case (if a = [] then prev else Some (last a)) of
              None \<Rightarrow> False | Some c \<Rightarrow> isWordChar c" by blast
  from s have "a @ ''=>'' @ r' = (A @ '')'' @ W) @ ''=>'' @ r" by simp
  from last_arrow_unique[OF this r' r] have a: "a = A @ '')'' @ W" .
  have "\<not> isWordChar (last a)"
  proof (cases "W = []")
    case True
    have "\<not> isWordChar CHR '')''" by code_simp
    with a True show ?thesis by simp
  next
    case False
    then have "last a = last W" "last W \<in> set W" using a by simp_all
    with W show ?thesis by (simp add: isWhiteSpace_not_word)
  qed
  moreover from a have "a \<noteq> []" by simp
  ultimately show False using w by simp
qed

lemma functionHeaderTail_shape:
  assumes "functionHeaderTail s"
  shows "\<exists>A W r. s = A @ '')'' @ W @ ''=>'' @ r
           \<and> (\<forall>x \<in> set W. isWhiteSpace x) \<and> (\<forall>x \<in> set r. isWhiteSpace x)"
proof -
  from assms obtain c cs where s: "s = c # cs"
    by (cases s) (simp_all add: functionHeaderTail_def)
  define u where "u = dropWhile (\<lambda>d. identPart d \<or> d = CHR ''$'') cs"
  define v where "v = dropWhile isWhiteSpace u"
  from assms s have 1: "case v of [] \<Rightarrow> False
      | p # ps \<Rightarrow> p = CHR ''('' \<and>
          (case dropWhile (\<lambda>d. d \<noteq> CHR '')'') ps of
             [] \<Rightarrow> False
           | q # qs \<Rightarrow>
               (case dropWhile isWhiteSpace qs of
                  e # g # r \<Rightarrow> e = CHR ''='' \<and> g = CHR ''>'' \<and> (\<forall>x \<in> set r. isWhiteSpace x)
                | _ \<Rightarrow> False))"
    by (simp add: functionHeaderTail_def u_def v_def)
  then obtain p ps where v: "v = p # ps" by (cases v) simp_all
  define w where "w = dropWhile (\<lambda>d. d \<noteq> CHR '')'') ps"
  from 1 v have 2: "case w of [] \<Rightarrow> False
           | q # qs \<Rightarrow>
               (case dropWhile isWhiteSpace qs of
                  e # g # r \<Rightarrow> e = CHR ''='' \<and> g = CHR ''>'' \<and> (\<forall>x \<in> set r. isWhiteSpace x)
                | _ \<Rightarrow> False)"
    by (simp add: w_def)
  then obtain q qs where w: "w = q # qs" by (cases w) simp_all
  define z where "z = dropWhile isWhiteSpace qs"
  from 2 w have 3: "case z of
                  e # g # r \<Rightarrow> e = CHR ''='' \<and> g = CHR ''>'' \<and> (\<forall>x \<in> set r. isWhiteSpace x)
                | _ \<Rightarrow> False"
    by (simp add: z_def)
  then obtain e z' where z1: "z = e # z'" by (cases z) simp_all
  with 3 obtain g r where z2: "z' = g # r" by (cases z') simp_all
  from 3 z1 z2 have "e = CHR ''=''" "g = CHR ''>''" and r: "\<forall>x \<in> set r. isWhiteSpace x"
    by simp_all
  with z1 z2 have t: "dropWhile isWhiteSpace qs = ''=>'' @ r" by (simp add: z_def)
  from w have "w \<noteq> []" by simp
  from hd_dropWhile[OF this[unfolded w_def]] w have q: "q = CHR '')''"
    by (simp add: w_def)
  define T1 where "T1 = takeWhile (\<lambda>d. identPart d \<or> d = CHR ''$'') cs"
  define T2 where "T2 = takeWhile isWhiteSpace u"
  define T3 where "T3 = takeWhile (\<lambda>d. d \<noteq> CHR '')'') ps"
  define T4 where "T4 = takeWhile isWhiteSpace qs"
  have e1: "T1 @ u = cs" by (simp add: T1_def u_def)
  have e2: "T2 @ v = u" by (simp add: T2_def v_def)
  have e3: "T3 @ w = ps" by (simp add: T3_def w_def)
  have e4: "T4 @ dropWhile isWhiteSpace qs = qs" by (simp add: T4_def)
  have "(c # T1 @ T2 @ p # T3) @ '')'' @ T4 @ ''=>'' @ r
      = c # T1 @ T2 @ p # T3 @ q # T4 @ dropWhile isWhiteSpace qs"
    by (simp only: q t append_Cons append_Nil append_assoc)
  also have "\<dots> = c # T1 @ T2 @ p # T3 @ q # qs" by (simp only: e4)
  also have "\<dots> = c # T1 @ T2 @ p # T3 @ w" by (simp only: w)
  also have "\<dots> = c # T1 @ T2 @ p # ps" by (simp only: e3)
  also have "\<dots> = c # T1 @ T2 @ v" by (simp only: v)
  also have "\<dots> = c # T1 @ u" by (simp only: e2)
  also have "\<dots> = s" by (simp only: e1 s)
  finally have "s = (c # T1 @ T2 @ p # T3) @ '')'' @ T4 @ ''=>'' @ r" by (rule sym)
  moreover have "\<forall>x \<in> set T4. isWhiteSpace x"
    by (auto simp: T4_def dest: set_takeWhileD)
  ultimately show ?thesis using r by blast
qed

lemma FUNCTION_HEADER_REGEX_shape:
  assumes "FUNCTION_HEADER_REGEX s"
  shows "\<exists>A W r. s = A @ '')'' @ W @ ''=>'' @ r
           \<and> (\<forall>x \<in> set W. isWhiteSpace x) \<and> (\<forall>x \<in> set r. isWhiteSpace x)"
proof (cases "functionHeaderTail s")
  case True
  then show ?thesis by (rule functionHeaderTail_shape)
next
  case False
  with assms obtain w ws where d: "drop 5 s = w # ws"
    and t: "functionHeaderTail (dropWhile isWhiteSpace ws)"
    unfolding FUNCTION_HEADER_REGEX_def by (auto split: list.splits)
  from functionHeaderTail_shape[OF t] obtain A W r where
    e: "dropWhile isWhiteSpace ws = A @ '')'' @ W @ ''=>'' @ r"
    and W: "\<forall>x \<in> set W. isWhiteSpace x" and r: "\<forall>x \<in> set r. isWhiteSpace x" by blast
  have "s = take 5 s @ drop 5 s" by simp
  also have "drop 5 s = w # takeWhile isWhiteSpace ws @ dropWhile isWhiteSpace ws"
    using d by simp
  finally have "s = (take 5 s @ w # takeWhile isWhiteSpace ws @ A) @ '')'' @ W @ ''=>'' @ r"
    using e by simp
  with W r show ?thesis by blast
qed

lemma function_header_not_start: "FUNCTION_HEADER_REGEX s \<Longrightarrow> \<not> isFunctionListStart s"
proof -
  assume "FUNCTION_HEADER_REGEX s"
  from FUNCTION_HEADER_REGEX_shape[OF this] obtain A W r where
    e: "s = A @ '')'' @ W @ ''=>'' @ r"
    and W: "\<forall>x \<in> set W. isWhiteSpace x" and r: "\<forall>x \<in> set r. isWhiteSpace x" by blast
  from closed_header_not_function_start[OF W r, of None A] e
  show ?thesis by (simp add: isFunctionListStart_def)
qed

lemma isFunctionListStart_word_before_arrow:
  "isFunctionListStart (a @ c # ''=>'') \<longleftrightarrow> isWordChar c"
proof
  assume "isFunctionListStart (a @ c # ''=>'')"
  then have "arrowAtEnd_scan None (a @ c # ''=>'')"
    by (simp add: isFunctionListStart_def split: if_splits)
  from arrowAtEnd_scan_shape[OF this] obtain b r where
    s: "a @ c # ''=>'' = b @ ''=>'' @ r" and r: "\<forall>x \<in> set r. isWhiteSpace x"
    and w: "case (if b = [] then None else Some (last b)) of
              None \<Rightarrow> False | Some c \<Rightarrow> isWordChar c" by blast
  from s have "b @ ''=>'' @ r = (a @ [c]) @ ''=>'' @ []" by simp
  from last_arrow_unique[OF this r] have "b = a @ [c]" by simp
  with w show "isWordChar c" by simp
next
  assume "isWordChar c"
  then have "case (if a @ [c] = [] then None else Some (last (a @ [c]))) of
              None \<Rightarrow> False | Some c \<Rightarrow> isWordChar c" by simp
  from arrowAtEnd_scan_found[of "[]" "a @ [c]" None, OF _ this]
  show "isFunctionListStart (a @ c # ''=>'')" by (simp add: isFunctionListStart_def)
qed

text \<open>
  Claim C7. In the single-equals rule of the interactive analyzer, once a function-header line
  of the shape \<open>name(...) =>\<close> (optionally prefixed by \<open>async\<close>) is seen at some indentation
  level, every later line with a strictly greater indentation level produces no single-equals
  finding, until a line at or below that level appears.

  The suppression starts at a line accepted by \<^verbatim>\<open>isFunctionListStart\<close>, whose pattern
  \<^verbatim>\<open>/\b=>\s*$/\<close> asks for a word character directly before the arrow. A function header has \<open>)\<close>
  or white space there, so no function header starts the suppression: after \<open>f(x) =>\<close> the
  indented line \<open>[a = 1 ? 2 : 3]\<close> is flagged. A line that ends with a word character and the
  arrow, such as \<open>f=>\<close>, does start it. The batch script has no suppression at all.
\<close>

theorem function_header_never_starts_suppression:
  "(FUNCTION_HEADER_REGEX s \<longrightarrow> \<not> isFunctionListStart s)
   \<and> (isFunctionListStart (a @ c # ''=>'') \<longleftrightarrow> isWordChar c)
   \<and> analyzeDocument [''f(x) =>'', ''  [a = 1 ? 2 : 3]'']
        \<lparr>checkDuplicates = True, checkIndentation = True, checkIfElseEquals = True\<rparr>
      = [\<lparr>d_line = 1, d_start = 2, d_end = 17,
          d_message = ''If/else conditions should use == instead of =.'',
          d_code = Some ''perchance.ifElseSingleEquals'', d_data = Some 1\<rparr>]
   \<and> analyzeDocument [''async f(x) =>'', ''  [a = 1 ? 2 : 3]'']
        \<lparr>checkDuplicates = True, checkIndentation = True, checkIfElseEquals = True\<rparr>
      = [\<lparr>d_line = 1, d_start = 2, d_end = 17,
          d_message = ''If/else conditions should use == instead of =.'',
          d_code = Some ''perchance.ifElseSingleEquals'', d_data = Some 1\<rparr>]
   \<and> analyzeDocument [''f=>'', ''  [a = 1 ? 2 : 3]'']
        \<lparr>checkDuplicates = True, checkIndentation = True, checkIfElseEquals = True\<rparr> = []
   \<and> analyzePerchance_lines [''f=>'', ''  [a = 1 ? 2 : 3]'']
      = [\<lparr>w_line = 2, w_code = ''single-equals'',
          w_message = ''If/else conditions should use == instead of =''\<rparr>]"
proof -
  have 1: "FUNCTION_HEADER_REGEX s \<longrightarrow> \<not> isFunctionListStart s"
    using function_header_not_start by blast
  have 2: "isFunctionListStart (a @ c # ''=>'') \<longleftrightarrow> isWordChar c"
    by (rule isFunctionListStart_word_before_arrow)
  have 3: "analyzeDocument [''f(x) =>'', ''  [a = 1 ? 2 : 3]'']
        \<lparr>checkDuplicates = True, checkIndentation = True, checkIfElseEquals = True\<rparr>
      = [\<lparr>d_line = 1, d_start = 2, d_end = 17,
          d_message = ''If/else conditions should use == instead of =.'',
          d_code = Some ''perchance.ifElseSingleEquals'', d_data = Some 1\<rparr>]"
    by code_simp
  have 4: "analyzeDocument [''async f(x) =>'', ''  [a = 1 ? 2 : 3]'']
        \<lparr>checkDuplicates = True, checkIndentation = True, checkIfElseEquals = True\<rparr>
      = [\<lparr>d_line = 1, d_start = 2, d_end = 17,
          d_message = ''If/else conditions should use == instead of =.'',
          d_code = Some ''perchance.ifElseSingleEquals'', d_data = Some 1\<rparr>]"
    by code_simp
  have 5: "analyzeDocument [''f=>'', ''  [a = 1 ? 2 : 3]'']
        \<lparr>checkDuplicates = True, checkIndentation = True, checkIfElseEquals = True\<rparr> = []"
    by code_simp
  have 6: "analyzePerchance_lines [''f=>'', ''  [a = 1 ? 2 : 3]'']
      = [\<lparr>w_line = 2, w_code = ''single-equals'',
          w_message = ''If/else conditions should use == instead of =''\<rparr>]"
    by code_simp
  show ?thesis
    by (rule conjI[OF 1 conjI[OF 2 conjI[OF 3 conjI[OF 4 conjI[OF 5 6]]]]])
qed

theorem function_header_never_starts_suppression_witness:
  "FUNCTION_HEADER_REGEX ''async f(x, y)  =>'' \<and> \<not> isFunctionListStart ''async f(x, y)  =>''
   \<and> isWordChar CHR ''f'' \<and> isFunctionListStart ''f=>''"
proof -
  have h: "FUNCTION_HEADER_REGEX ''async f(x, y)  =>''" by code_simp
  have w: "isWordChar CHR ''f''" by code_simp
  note T = function_header_never_starts_suppression[of "''async f(x, y)  =>''" "[]" "CHR ''f''"]
  note n = T[THEN conjunct1, THEN mp, OF h]
  from T[THEN conjunct2, THEN conjunct1, THEN iffD2, OF w]
  have s: "isFunctionListStart ''f=>''" by simp
  show ?thesis by (rule conjI[OF h conjI[OF n conjI[OF w s]]])
qed

section \<open>Properties of the quick fix\<close>

lemma replaceFirstSingleEquals_from_spec:
  "replaceFirstSingleEquals_from cond r i = Some out \<longleftrightarrow>
     (\<exists>j \<ge> i. singleEqualsAt cond j \<and> (\<forall>k. i \<le> k \<and> k < j \<longrightarrow> \<not> singleEqualsAt cond k)
        \<and> out = take j cond @ r @ drop (j + 1) cond)"
proof (induction cond r i rule: replaceFirstSingleEquals_from.induct)
  case (1 cond r i)
  let ?Q = "\<lambda>i j. singleEqualsAt cond j \<and> (\<forall>k. i \<le> k \<and> k < j \<longrightarrow> \<not> singleEqualsAt cond k)
        \<and> out = take j cond @ r @ drop (j + 1) cond"
  show ?case
  proof (cases "i < length cond")
    case False
    then have "replaceFirstSingleEquals_from cond r i = None"
      by (simp add: replaceFirstSingleEquals_from.simps[of cond r i])
    moreover have "\<not> (\<exists>j \<ge> i. ?Q i j)"
      using False by (auto simp: singleEqualsAt_def)
    ultimately show ?thesis by simp
  next
    case True
    define prev where "prev = (if i = 0 then None else Some (cond ! (i - 1)))"
    define nxt where "nxt = (if i + 1 < length cond then Some (cond ! (i + 1)) else None)"
    let ?H = "replaceFirstSingleEquals_from cond r (i + 1)"
    have eqn: "replaceFirstSingleEquals_from cond r i =
        (if cond ! i \<noteq> CHR ''='' then ?H
         else if prev = Some CHR ''='' \<or> nxt = Some CHR ''='' then ?H
         else if prev = Some CHR ''!'' \<or> prev = Some CHR ''>'' \<or> prev = Some CHR ''<'' then ?H
         else if nxt = Some CHR ''>'' then ?H
         else Some (take i cond @ r @ drop (i + 1) cond))"
      by (subst replaceFirstSingleEquals_from.simps)
        (simp only: True if_True Let_def prev_def nxt_def)
    have pv: "prev = Some c \<longleftrightarrow> i \<noteq> 0 \<and> cond ! (i - 1) = c" for c
      unfolding prev_def by simp
    have nx: "nxt = Some c \<longleftrightarrow> i + 1 \<noteq> length cond \<and> cond ! (i + 1) = c" for c
      unfolding nxt_def using True by auto
    have sea: "singleEqualsAt cond i \<longleftrightarrow>
        cond ! i = CHR ''='' \<and> prev \<noteq> Some CHR ''='' \<and> prev \<noteq> Some CHR ''!''
        \<and> prev \<noteq> Some CHR ''>'' \<and> prev \<noteq> Some CHR ''<''
        \<and> nxt \<noteq> Some CHR ''='' \<and> nxt \<noteq> Some CHR ''>''"
      unfolding singleEqualsAt_def pv nx using True by blast
    show ?thesis
    proof (cases "singleEqualsAt cond i")
      case here: True
      then have res: "replaceFirstSingleEquals_from cond r i
          = Some (take i cond @ r @ drop (i + 1) cond)"
        unfolding eqn sea by simp
      have "(\<exists>j \<ge> i. ?Q i j) \<longleftrightarrow> out = take i cond @ r @ drop (i + 1) cond"
      proof
        assume "\<exists>j \<ge> i. ?Q i j"
        then obtain j where j: "i \<le> j" "?Q i j" by blast
        have "j = i"
        proof (rule ccontr)
          assume "j \<noteq> i"
          with j(1) have "i \<le> i \<and> i < j" by simp
          with j(2) have "\<not> singleEqualsAt cond i" by blast
          with here show False by simp
        qed
        with j(2) show "out = take i cond @ r @ drop (i + 1) cond" by simp
      next
        assume "out = take i cond @ r @ drop (i + 1) cond"
        with here have "i \<le> i \<and> ?Q i i" by auto
        then show "\<exists>j \<ge> i. ?Q i j" by blast
      qed
      with res show ?thesis by auto
    next
      case nothere: False
      then have step: "replaceFirstSingleEquals_from cond r i = ?H"
        unfolding eqn sea by auto
      from nothere consider (a) "cond ! i \<noteq> CHR ''=''"
        | (b) "\<not> cond ! i \<noteq> CHR ''=''" "prev = Some CHR ''='' \<or> nxt = Some CHR ''=''"
        | (c) "\<not> cond ! i \<noteq> CHR ''=''" "\<not> (prev = Some CHR ''='' \<or> nxt = Some CHR ''='')"
              "prev = Some CHR ''!'' \<or> prev = Some CHR ''>'' \<or> prev = Some CHR ''<''"
        | (d) "\<not> cond ! i \<noteq> CHR ''=''" "\<not> (prev = Some CHR ''='' \<or> nxt = Some CHR ''='')"
              "\<not> (prev = Some CHR ''!'' \<or> prev = Some CHR ''>'' \<or> prev = Some CHR ''<'')"
              "nxt = Some CHR ''>''"
        unfolding sea by blast
      then have IH: "?H = Some out \<longleftrightarrow> (\<exists>j \<ge> i + 1. ?Q (i + 1) j)"
      proof cases
        case a
        from "1.IH"(1)[OF True a] show ?thesis .
      next
        case b
        from "1.IH"(2)[OF True b(1) prev_def nxt_def b(2)] show ?thesis .
      next
        case c
        from "1.IH"(3)[OF True c(1) prev_def nxt_def c(2) c(3)] show ?thesis .
      next
        case d
        from "1.IH"(4)[OF True d(1) prev_def nxt_def d(2) d(3) d(4)] show ?thesis .
      qed
      have "(\<exists>j \<ge> i + 1. ?Q (i + 1) j) \<longleftrightarrow> (\<exists>j \<ge> i. ?Q i j)"
      proof
        assume "\<exists>j \<ge> i + 1. ?Q (i + 1) j"
        then obtain j where j: "i + 1 \<le> j" "?Q (i + 1) j" by blast
        have "\<not> singleEqualsAt cond k" if "i \<le> k \<and> k < j" for k
        proof (cases "k = i")
          case True
          with nothere show ?thesis by simp
        next
          case False
          with that have "i + 1 \<le> k \<and> k < j" by simp
          with j(2) show ?thesis by blast
        qed
        with j have "i \<le> j \<and> ?Q i j" by simp
        then show "\<exists>j \<ge> i. ?Q i j" by blast
      next
        assume "\<exists>j \<ge> i. ?Q i j"
        then obtain j where j: "i \<le> j" "?Q i j" by blast
        with nothere have "j \<noteq> i" by blast
        with j(1) have "i + 1 \<le> j" by simp
        moreover from j(2) have "?Q (i + 1) j" by simp
        ultimately show "\<exists>j \<ge> i + 1. ?Q (i + 1) j" by blast
      qed
      with step IH show ?thesis by simp
    qed
  qed
qed

lemma replaceFirstSingleEquals_first:
  "replaceFirstSingleEquals cond r = Some out \<longleftrightarrow>
     (\<exists>j. firstSingleEquals cond j \<and> out = take j cond @ r @ drop (j + 1) cond)"
  unfolding replaceFirstSingleEquals_def replaceFirstSingleEquals_from_spec firstSingleEquals_def
  by simp

lemma replaceFirstSingleEquals_None:
  "replaceFirstSingleEquals cond r = None \<longleftrightarrow> \<not> hasSingleEquals cond"
proof -
  have "(\<exists>j. singleEqualsAt cond j) \<longleftrightarrow> (\<exists>j. firstSingleEquals cond j)"
  proof
    assume "\<exists>j. singleEqualsAt cond j"
    then obtain j where j: "singleEqualsAt cond j" ..
    define m where "m = (LEAST j. singleEqualsAt cond j)"
    from j have "singleEqualsAt cond m" unfolding m_def by (rule LeastI)
    moreover have "\<not> singleEqualsAt cond k" if "k < m" for k
      using that unfolding m_def by (rule not_less_Least)
    ultimately show "\<exists>j. firstSingleEquals cond j" unfolding firstSingleEquals_def by blast
  next
    assume "\<exists>j. firstSingleEquals cond j"
    then show "\<exists>j. singleEqualsAt cond j" unfolding firstSingleEquals_def by blast
  qed
  moreover have "replaceFirstSingleEquals cond r = None \<longleftrightarrow>
      \<not> (\<exists>out. replaceFirstSingleEquals cond r = Some out)" by simp
  ultimately show ?thesis
    unfolding hasSingleEquals_iff replaceFirstSingleEquals_first by blast
qed

lemma getSubstitution_no_dollar:
  "CHR ''$'' \<notin> set template \<Longrightarrow> getSubstitution matched str position template = template"
  by (induction matched str position template rule: getSubstitution.induct) auto

lemma indexOf_from_first:
  "i \<le> length s \<Longrightarrow> startsWith (drop i s) n \<Longrightarrow> (\<forall>p < i. \<not> startsWith (drop p s) n) \<Longrightarrow>
   indexOf_from pos s n = Some (pos + i)"
proof (induction s arbitrary: pos i)
  case Nil
  then show ?case by (simp add: startsWith_def)
next
  case (Cons c cs)
  show ?case
  proof (cases i)
    case 0
    with Cons.prems show ?thesis by simp
  next
    case (Suc i')
    with Cons.prems(3) have "\<not> startsWith (drop 0 (c # cs)) n" by blast
    then have n0: "\<not> startsWith (c # cs) n" by simp
    from Cons.prems Suc have 1: "i' \<le> length cs" and 2: "startsWith (drop i' cs) n" by simp_all
    have 3: "\<forall>p < i'. \<not> startsWith (drop p cs) n"
    proof (intro allI impI)
      fix p assume "p < i'"
      with Suc have "Suc p < i" by simp
      with Cons.prems(3) have "\<not> startsWith (drop (Suc p) (c # cs)) n" by blast
      then show "\<not> startsWith (drop p cs) n" by simp
    qed
    from Cons.IH[OF 1 2 3, of "pos + 1"] n0 Suc show ?thesis by simp
  qed
qed

lemma ternaryBracketRegex_Some:
  "ternaryBracketRegex s = Some block \<longleftrightarrow>
     (\<exists>rest. s = ''['' @ block @ '']'' @ rest \<and> CHR '']'' \<notin> set block \<and> ternaryShape block)"
proof (cases s)
  case Nil
  then show ?thesis by simp
next
  case (Cons c cs)
  let ?P = "\<lambda>d. d \<noteq> CHR '']''"
  show ?thesis
  proof
    assume "ternaryBracketRegex s = Some block"
    with Cons have c: "c = CHR ''[''" and d: "dropWhile ?P cs \<noteq> []"
      and t: "ternaryShape (takeWhile ?P cs)" and b: "block = takeWhile ?P cs"
      by (simp_all split: if_splits)
    from d have "hd (dropWhile ?P cs) = CHR '']''" using hd_dropWhile[of ?P cs] by simp
    with d have "dropWhile ?P cs = '']'' @ tl (dropWhile ?P cs)"
      by (cases "dropWhile ?P cs") simp_all
    then have "cs = block @ '']'' @ tl (dropWhile ?P cs)"
      using takeWhile_dropWhile_id[of ?P cs] b by simp
    with c Cons have "s = ''['' @ block @ '']'' @ tl (dropWhile ?P cs)" by simp
    moreover have "CHR '']'' \<notin> set block" unfolding b by (auto dest: set_takeWhileD)
    ultimately show "\<exists>rest. s = ''['' @ block @ '']'' @ rest \<and> CHR '']'' \<notin> set block
        \<and> ternaryShape block" using t b by blast
  next
    assume "\<exists>rest. s = ''['' @ block @ '']'' @ rest \<and> CHR '']'' \<notin> set block
        \<and> ternaryShape block"
    then obtain rest where s: "s = ''['' @ block @ '']'' @ rest"
      and nb: "CHR '']'' \<notin> set block" and t: "ternaryShape block" by blast
    from nb have tw: "takeWhile ?P (block @ '']'' @ rest) = block"
      by (subst takeWhile_append2) auto
    from nb have dw: "dropWhile ?P (block @ '']'' @ rest) = '']'' @ rest"
      by (subst dropWhile_append2) auto
    from s tw dw t show "ternaryBracketRegex s = Some block" by simp
  qed
qed

lemma ternary_match_first_occurrence:
  assumes "regexExec ternaryBracketRegex lineText 0 = Some (index, block)"
  shows "indexOf lineText (''['' @ block @ '']'') = Some index"
    and "CHR '']'' \<notin> set block" and "ternaryShape block"
    and "\<exists>rest. drop index lineText = ''['' @ block @ '']'' @ rest"
proof -
  note R = regexExec_Some[OF assms]
  from R(3) obtain rest where d: "drop index lineText = ''['' @ block @ '']'' @ rest"
    and nb: "CHR '']'' \<notin> set block" and t: "ternaryShape block"
    unfolding ternaryBracketRegex_Some by blast
  from nb show "CHR '']'' \<notin> set block" .
  from t show "ternaryShape block" .
  from d show "\<exists>rest. drop index lineText = ''['' @ block @ '']'' @ rest" by blast
  have st: "startsWith (drop index lineText) (''['' @ block @ '']'')"
    unfolding d startsWith_def by simp
  have "\<not> startsWith (drop p lineText) (''['' @ block @ '']'')" if "p < index" for p
  proof
    assume "startsWith (drop p lineText) (''['' @ block @ '']'')"
    then obtain rest' where "drop p lineText = (''['' @ block @ '']'') @ rest'"
      unfolding startsWith_iff by blast
    then have "drop p lineText = ''['' @ block @ '']'' @ rest'" by simp
    with nb t have "ternaryBracketRegex (drop p lineText)
        = Some block" unfolding ternaryBracketRegex_Some by blast
    with R(4)[of p] that show False by simp
  qed
  then have "\<forall>p < index. \<not> startsWith (drop p lineText) (''['' @ block @ '']'')" by blast
  from indexOf_from_first[OF R(2) st this, of 0]
  show "indexOf lineText (''['' @ block @ '']'') = Some index" by (simp add: indexOf_def)
qed

lemma ternaryShape_question: "ternaryShape block \<Longrightarrow> CHR ''?'' \<in> set block"
proof -
  assume "ternaryShape block"
  then obtain q where "q \<in> set [1..<length block]" "block ! q = CHR ''?''"
    unfolding ternaryShape_def list_ex_iff by blast
  then have "q < length block" "block ! q = CHR ''?''" by simp_all
  then show ?thesis by (metis nth_mem)
qed

lemma replaceSingleEqualsInIfElse_plain:
  assumes m: "regexExec ternaryBracketRegex lineText 0 = Some (index, block)"
    and nd: "CHR ''$'' \<notin> set block"
  shows "replaceSingleEqualsInIfElse lineText =
     (case replaceFirstSingleEquals (takeWhile (\<lambda>c. c \<noteq> CHR ''?'') block) ''=='' of
        None \<Rightarrow> None
      | Some conditionFixed \<Rightarrow>
          Some (take index lineText
                @ ''['' @ conditionFixed @ dropWhile (\<lambda>c. c \<noteq> CHR ''?'') block @ '']''
                @ drop (index + (length block + 2)) lineText))"
proof -
  let ?cond = "takeWhile (\<lambda>c. c \<noteq> CHR ''?'') block"
  let ?rest = "dropWhile (\<lambda>c. c \<noteq> CHR ''?'') block"
  note M = ternary_match_first_occurrence[OF m]
  from ternaryShape_question[OF M(3)]
  have q: "indexOf block ''?'' = Some (length ?cond)" by (simp add: indexOf_char)
  have tk: "take (length ?cond) block = ?cond" by (rule take_length_takeWhile)
  have dr: "drop (length ?cond) block = ?rest" by (simp add: dropWhile_eq_drop)
  show ?thesis
  proof (cases "replaceFirstSingleEquals ?cond ''==''")
    case None
    then show ?thesis
      by (simp add: replaceSingleEqualsInIfElse_def m q tk)
  next
    case (Some cf)
    then obtain j where cf: "cf = take j ?cond @ ''=='' @ drop (j + 1) ?cond"
      unfolding replaceFirstSingleEquals_first by blast
    have "set ?cond \<subseteq> set block" by (auto dest: set_takeWhileD)
    with nd have "CHR ''$'' \<notin> set ?cond" by blast
    then have "CHR ''$'' \<notin> set (take j ?cond)" "CHR ''$'' \<notin> set (drop (j + 1) ?cond)"
      by (auto dest: in_set_takeD in_set_dropD)
    then have 1: "CHR ''$'' \<notin> set cf" unfolding cf by simp
    have "set ?rest \<subseteq> set block" by (auto dest: set_dropWhileD)
    with nd have 2: "CHR ''$'' \<notin> set ?rest" by blast
    from 1 2 have "CHR ''$'' \<notin> set (''['' @ (cf @ ?rest) @ '']'')" by simp
    then have g: "getSubstitution (''['' @ block @ '']'') lineText index
        (''['' @ (cf @ ?rest) @ '']'') = ''['' @ (cf @ ?rest) @ '']''"
      by (rule getSubstitution_no_dollar)
    have "stringReplace lineText (''['' @ block @ '']'') (''['' @ (cf @ ?rest) @ '']'')
        = take index lineText @ (''['' @ (cf @ ?rest) @ '']'')
          @ drop (index + length (''['' @ block @ '']'')) lineText"
      unfolding stringReplace_def M(1) option.case g ..
    then have "stringReplace lineText (''['' @ block @ '']'') (''['' @ (cf @ ?rest) @ '']'')
        = take index lineText @ ''['' @ cf @ ?rest @ '']''
          @ drop (index + (length block + 2)) lineText" by simp
    then show ?thesis
      by (simp add: replaceSingleEqualsInIfElse_def m q tk dr Some)
  qed
qed

lemma replaceSingleEqualsInIfElse_no_span:
  "regexExec ternaryBracketRegex lineText 0 = None \<Longrightarrow> replaceSingleEqualsInIfElse lineText = None"
  by (simp add: replaceSingleEqualsInIfElse_def)

lemma ternary_match_span:
  assumes "regexExec ternaryBracketRegex lineText 0 = Some (index, block)"
  shows "lineText = take index lineText @ ''['' @ block @ '']''
           @ drop (index + (length block + 2)) lineText"
proof -
  from ternary_match_first_occurrence(4)[OF assms] obtain rest where
    d: "drop index lineText = ''['' @ block @ '']'' @ rest" by blast
  have "drop (index + (length block + 2)) lineText = drop (length block + 2) (drop index lineText)"
    by (simp add: add.commute)
  also have "\<dots> = rest" unfolding d by simp
  finally have "drop (index + (length block + 2)) lineText = rest" .
  with d have "drop index lineText
      = ''['' @ block @ '']'' @ drop (index + (length block + 2)) lineText" by simp
  then have "take index lineText @ drop index lineText = take index lineText @ ''['' @ block @ '']''
           @ drop (index + (length block + 2)) lineText" by (simp only:)
  then show ?thesis by (simp only: append_take_drop_id)
qed

text \<open>
  Claim C9. For every line text, the quick fix returns \<^verbatim>\<open>null\<close> when no fix is applicable, and
  otherwise returns the line with the first single equals sign, found by the rule of the
  detection, rewritten into \<open>==\<close>, changing only the matched bracketed span.

  The function looks at the first bracketed span of the shape \<open>[x?y:z]\<close> only; \<^verbatim>\<open>null\<close> is
  returned when there is none or when its condition holds no single equals sign. The span is
  put back with \<^verbatim>\<open>String.prototype.replace\<close>, which expands \<^verbatim>\<open>$$\<close>, \<^verbatim>\<open>$&\<close>, \<^verbatim>\<open>$`\<close> and \<^verbatim>\<open>$'\<close> in
  the replacement: the claim holds of a span without \<open>$\<close> and fails of \<open>[a = 1 ? $$ : b]\<close>, where a
  \<open>$\<close> is lost, and of \<open>x [a = 1 ? $& : b] y\<close>, where the old span is inserted. A line whose first
  span of that shape is in order gets no fix, although a later span is flagged by the detection.
\<close>

theorem replaceSingleEqualsInIfElse_rewrites_first_single_equals:
  "(regexExec ternaryBracketRegex lineText 0 = None \<longrightarrow> replaceSingleEqualsInIfElse lineText = None)
   \<and> (regexExec ternaryBracketRegex lineText 0 = Some (index, block) \<longrightarrow>
        lineText = take index lineText @ ''['' @ block @ '']''
                     @ drop (index + (length block + 2)) lineText
        \<and> CHR '']'' \<notin> set block \<and> ternaryShape block
        \<and> (CHR ''$'' \<notin> set block \<longrightarrow>
             replaceSingleEqualsInIfElse lineText =
               (case replaceFirstSingleEquals (takeWhile (\<lambda>c. c \<noteq> CHR ''?'') block) ''=='' of
                  None \<Rightarrow> None
                | Some conditionFixed \<Rightarrow>
                    Some (take index lineText
                          @ ''['' @ conditionFixed @ dropWhile (\<lambda>c. c \<noteq> CHR ''?'') block @ '']''
                          @ drop (index + (length block + 2)) lineText))))
   \<and> (replaceFirstSingleEquals cond r = None \<longleftrightarrow> \<not> hasSingleEquals cond)
   \<and> (replaceFirstSingleEquals cond r = Some out \<longleftrightarrow>
        (\<exists>j. firstSingleEquals cond j \<and> out = take j cond @ r @ drop (j + 1) cond))
   \<and> replaceSingleEqualsInIfElse ''[a = 1 ? $$ : b]'' = Some ''[a == 1 ? $ : b]''
   \<and> replaceSingleEqualsInIfElse ''x [a = 1 ? $& : b] y''
        = Some ''x [a == 1 ? [a = 1 ? $& : b] : b] y''
   \<and> replaceSingleEqualsInIfElse ''[a == 1 ? 2 : 3] [b = 1 ? 2 : 3]'' = None
   \<and> findIfElseSingleEquals ''[a == 1 ? 2 : 3] [b = 1 ? 2 : 3]''
        = [\<lparr>span_start = 17, span_end = 32\<rparr>]"
proof -
  have 1: "regexExec ternaryBracketRegex lineText 0 = None \<longrightarrow>
      replaceSingleEqualsInIfElse lineText = None"
    using replaceSingleEqualsInIfElse_no_span by blast
  have 2: "regexExec ternaryBracketRegex lineText 0 = Some (index, block) \<longrightarrow>
        lineText = take index lineText @ ''['' @ block @ '']''
                     @ drop (index + (length block + 2)) lineText
        \<and> CHR '']'' \<notin> set block \<and> ternaryShape block
        \<and> (CHR ''$'' \<notin> set block \<longrightarrow>
             replaceSingleEqualsInIfElse lineText =
               (case replaceFirstSingleEquals (takeWhile (\<lambda>c. c \<noteq> CHR ''?'') block) ''=='' of
                  None \<Rightarrow> None
                | Some conditionFixed \<Rightarrow>
                    Some (take index lineText
                          @ ''['' @ conditionFixed @ dropWhile (\<lambda>c. c \<noteq> CHR ''?'') block @ '']''
                          @ drop (index + (length block + 2)) lineText)))"
  proof
    assume m: "regexExec ternaryBracketRegex lineText 0 = Some (index, block)"
    note a = ternary_match_span[OF m]
    note b = ternary_match_first_occurrence(2)[OF m]
    note c = ternary_match_first_occurrence(3)[OF m]
    have d: "CHR ''$'' \<notin> set block \<longrightarrow>
             replaceSingleEqualsInIfElse lineText =
               (case replaceFirstSingleEquals (takeWhile (\<lambda>c. c \<noteq> CHR ''?'') block) ''=='' of
                  None \<Rightarrow> None
                | Some conditionFixed \<Rightarrow>
                    Some (take index lineText
                          @ ''['' @ conditionFixed @ dropWhile (\<lambda>c. c \<noteq> CHR ''?'') block @ '']''
                          @ drop (index + (length block + 2)) lineText))"
      using replaceSingleEqualsInIfElse_plain[OF m] by blast
    show "lineText = take index lineText @ ''['' @ block @ '']''
                     @ drop (index + (length block + 2)) lineText
        \<and> CHR '']'' \<notin> set block \<and> ternaryShape block
        \<and> (CHR ''$'' \<notin> set block \<longrightarrow>
             replaceSingleEqualsInIfElse lineText =
               (case replaceFirstSingleEquals (takeWhile (\<lambda>c. c \<noteq> CHR ''?'') block) ''=='' of
                  None \<Rightarrow> None
                | Some conditionFixed \<Rightarrow>
                    Some (take index lineText
                          @ ''['' @ conditionFixed @ dropWhile (\<lambda>c. c \<noteq> CHR ''?'') block @ '']''
                          @ drop (index + (length block + 2)) lineText)))"
      by (rule conjI[OF a conjI[OF b conjI[OF c d]]])
  qed
  have 3: "replaceFirstSingleEquals cond r = None \<longleftrightarrow> \<not> hasSingleEquals cond"
    by (rule replaceFirstSingleEquals_None)
  have 4: "replaceFirstSingleEquals cond r = Some out \<longleftrightarrow>
        (\<exists>j. firstSingleEquals cond j \<and> out = take j cond @ r @ drop (j + 1) cond)"
    by (rule replaceFirstSingleEquals_first)
  have 5: "replaceSingleEqualsInIfElse ''[a = 1 ? $$ : b]'' = Some ''[a == 1 ? $ : b]''"
    by code_simp
  have 6: "replaceSingleEqualsInIfElse ''x [a = 1 ? $& : b] y''
        = Some ''x [a == 1 ? [a = 1 ? $& : b] : b] y''"
    by code_simp
  have 7: "replaceSingleEqualsInIfElse ''[a == 1 ? 2 : 3] [b = 1 ? 2 : 3]'' = None"
    by code_simp
  have 8: "findIfElseSingleEquals ''[a == 1 ? 2 : 3] [b = 1 ? 2 : 3]''
        = [\<lparr>span_start = 17, span_end = 32\<rparr>]"
    by code_simp
  show ?thesis
    by (rule conjI[OF 1 conjI[OF 2 conjI[OF 3 conjI[OF 4 conjI[OF 5 conjI[OF 6 conjI[OF 7 8]]]]]]])
qed

theorem replaceSingleEqualsInIfElse_rewrites_first_single_equals_witness:
  "regexExec ternaryBracketRegex ''x [a = 1 ? b = 2 : 3] y'' 0 = Some (2, ''a = 1 ? b = 2 : 3'')
   \<and> CHR ''$'' \<notin> set ''a = 1 ? b = 2 : 3''
   \<and> firstSingleEquals ''a = 1 '' 2
   \<and> replaceFirstSingleEquals ''a = 1 '' ''=='' = Some ''a == 1 ''
   \<and> replaceSingleEqualsInIfElse ''x [a = 1 ? b = 2 : 3] y'' = Some ''x [a == 1 ? b = 2 : 3] y''"
proof -
  let ?line = "''x [a = 1 ? b = 2 : 3] y''"
  let ?block = "''a = 1 ? b = 2 : 3''"
  have m: "regexExec ternaryBracketRegex ?line 0 = Some (2, ?block)" by code_simp
  have nd: "CHR ''$'' \<notin> set ?block" by simp
  have f: "firstSingleEquals ''a = 1 '' 2"
    unfolding firstSingleEquals_def singleEqualsAt_def by (simp add: less_Suc_eq numeral_2_eq_2)
  note T = replaceSingleEqualsInIfElse_rewrites_first_single_equals
             [of ?line 2 ?block "''a = 1 ''" "''==''" "''a == 1 ''"]
  have "take 2 ''a = 1 '' @ ''=='' @ drop (2 + 1) ''a = 1 '' = ''a == 1 ''" by simp
  with f have "\<exists>j. firstSingleEquals ''a = 1 '' j
      \<and> ''a == 1 '' = take j ''a = 1 '' @ ''=='' @ drop (j + 1) ''a = 1 ''"
    by (intro exI[of _ 2]) simp
  from T[THEN conjunct2, THEN conjunct2, THEN conjunct2, THEN conjunct1, THEN iffD2, OF this]
  have r: "replaceFirstSingleEquals ''a = 1 '' ''=='' = Some ''a == 1 ''" .
  have tw: "takeWhile (\<lambda>c. c \<noteq> CHR ''?'') ?block = ''a = 1 ''" by simp
  have dw: "dropWhile (\<lambda>c. c \<noteq> CHR ''?'') ?block = ''? b = 2 : 3''" by simp
  from T[THEN conjunct2, THEN conjunct1, THEN mp, OF m, THEN conjunct2, THEN conjunct2,
         THEN conjunct2, THEN mp, OF nd]
  have "replaceSingleEqualsInIfElse ?line = Some ''x [a == 1 ? b = 2 : 3] y''"
    unfolding tw dw r by simp
  with m nd f r show ?thesis by (simp only: simp_thms)
qed

end
